theory Spec2Isabelle
  imports
    Complex_Main
    "HOL-Library.Char_ord"
    "HOL-Library.List_Lexorder"
    "HOL-Library.Product_Lexorder"
begin

section \<open>The backing store\<close>

text \<open>
  \<^verbatim>\<open>lru.py\<close> talks to a Redis server through redis-py's \<^verbatim>\<open>StrictRedis\<close>. The
  server is one keyspace from byte strings to typed values, each with an optional
  expiry deadline. Clock readings are rational seconds; one reading is taken for each
  call of a cache method (the method's round trips are taken as instantaneous).
\<close>

type_synonym bytes = string
type_synonym clock = rat

datatype rvalue =
    RString bytes
  | RZSet "(bytes \<times> rat) list"
  | RHash "bytes \<rightharpoonup> int"

record entry =
  payload :: rvalue
  deadline :: "clock option"

type_synonym redis = "bytes \<rightharpoonup> entry"

datatype pykey = Str bytes | Bytes bytes

datatype pyerr =
    KeyError pykey
  | AttributeError string  \<comment> \<open>the missing attribute's name\<close>
  | ValueError string
  | RuntimeError string
  | ResponseError string
  | IndexError
  | UnicodeDecodeError
  | OverflowError

text \<open>A key whose deadline lies in the past is gone (Redis: expired when now > deadline).\<close>

definition live :: "clock \<Rightarrow> redis \<Rightarrow> bytes \<Rightarrow> entry option" where
  "live now st k =
     (case st k of
        None \<Rightarrow> None
      | Some e \<Rightarrow>
          (case deadline e of
             None \<Rightarrow> Some e
           | Some d \<Rightarrow> if d < now then None else Some e))"

datatype reply =
    Nil
  | Bulk bytes
  | Integer int
  | Multi "bytes list"
  | Fields "bytes \<rightharpoonup> int"
  | Ok

datatype command =
    GET bytes
  | SETEX bytes int bytes
  | DEL bytes
  | ZADD bytes rat bytes
  | ZREM bytes bytes
  | ZRANGE bytes int int
  | ZCARD bytes
  | HINCRBY bytes bytes int
  | HGETALL bytes
  | EXPIRE bytes int
  | EXISTS bytes

definition WRONGTYPE :: pyerr where
  "WRONGTYPE = ResponseError ''WRONGTYPE Operation against a key holding the wrong kind of value''"

definition zadd_member :: "bytes \<Rightarrow> rat \<Rightarrow> (bytes \<times> rat) list \<Rightarrow> (bytes \<times> rat) list" where
  "zadd_member m s z = (m, s) # filter (\<lambda>p. fst p \<noteq> m) z"

definition zrem_member :: "bytes \<Rightarrow> (bytes \<times> rat) list \<Rightarrow> (bytes \<times> rat) list" where
  "zrem_member m z = filter (\<lambda>p. fst p \<noteq> m) z"

text \<open>Members of a sorted set are ranked by score, equal scores by the member's bytes.\<close>

definition zranked :: "(bytes \<times> rat) list \<Rightarrow> (bytes \<times> rat) list" where
  "zranked z = sort_key (\<lambda>p. (snd p, fst p)) z"

text \<open>Ranks are inclusive on both ends; a negative rank counts from the end.\<close>

definition zslice :: "int \<Rightarrow> int \<Rightarrow> 'a list \<Rightarrow> 'a list" where
  "zslice start stop xs =
     (let n = int (length xs);
          s = (if start < 0 then max (n + start) 0 else start);
          e = (if stop < 0 then n + stop else stop);
          e' = (if e \<ge> n then n - 1 else e)
      in if s > e' \<or> s \<ge> n then [] else take (nat (e' - s + 1)) (drop (nat s) xs))"

definition int64_ok :: "int \<Rightarrow> bool" where
  "int64_ok i \<longleftrightarrow> - (2 ^ 63) \<le> i \<and> i < 2 ^ 63"

fun exec :: "clock \<Rightarrow> command \<Rightarrow> redis \<Rightarrow> (pyerr + reply) \<times> redis" where
  "exec now (GET k) st =
     (case live now st k of
        None \<Rightarrow> (Inr Nil, st)
      | Some e \<Rightarrow>
          (case payload e of
             RString v \<Rightarrow> (Inr (Bulk v), st)
           | _ \<Rightarrow> (Inl WRONGTYPE, st)))"
| "exec now (SETEX k secs v) st =
     (if secs \<le> 0 then (Inl (ResponseError ''ERR invalid expire time in setex''), st)
      else (Inr Ok, st(k \<mapsto> \<lparr>payload = RString v, deadline = Some (now + of_int secs)\<rparr>)))"
| "exec now (DEL k) st =
     (case live now st k of
        None \<Rightarrow> (Inr (Integer 0), st(k := None))
      | Some e \<Rightarrow> (Inr (Integer 1), st(k := None)))"
| "exec now (ZADD k score m) st =
     (case live now st k of
        None \<Rightarrow> (Inr (Integer 1), st(k \<mapsto> \<lparr>payload = RZSet [(m, score)], deadline = None\<rparr>))
      | Some e \<Rightarrow>
          (case payload e of
             RZSet z \<Rightarrow>
               (Inr (Integer (if m \<in> fst ` set z then 0 else 1)),
                st(k \<mapsto> e\<lparr>payload := RZSet (zadd_member m score z)\<rparr>))
           | _ \<Rightarrow> (Inl WRONGTYPE, st)))"
| "exec now (ZREM k m) st =
     (case live now st k of
        None \<Rightarrow> (Inr (Integer 0), st(k := None))
      | Some e \<Rightarrow>
          (case payload e of
             RZSet z \<Rightarrow>
               (Inr (Integer (if m \<in> fst ` set z then 1 else 0)),
                if zrem_member m z = [] then st(k := None)
                else st(k \<mapsto> e\<lparr>payload := RZSet (zrem_member m z)\<rparr>))
           | _ \<Rightarrow> (Inl WRONGTYPE, st)))"
| "exec now (ZRANGE k start stop) st =
     (case live now st k of
        None \<Rightarrow> (Inr (Multi []), st)
      | Some e \<Rightarrow>
          (case payload e of
             RZSet z \<Rightarrow> (Inr (Multi (zslice start stop (map fst (zranked z)))), st)
           | _ \<Rightarrow> (Inl WRONGTYPE, st)))"
| "exec now (ZCARD k) st =
     (case live now st k of
        None \<Rightarrow> (Inr (Integer 0), st)
      | Some e \<Rightarrow>
          (case payload e of
             RZSet z \<Rightarrow> (Inr (Integer (int (length z))), st)
           | _ \<Rightarrow> (Inl WRONGTYPE, st)))"
| "exec now (HINCRBY k f n) st =
     (case live now st k of
        None \<Rightarrow>
          (if int64_ok n
           then (Inr (Integer n), st(k \<mapsto> \<lparr>payload = RHash [f \<mapsto> n], deadline = None\<rparr>))
           else (Inl (ResponseError ''ERR value is not an integer or out of range''), st))
      | Some e \<Rightarrow>
          (case payload e of
             RHash h \<Rightarrow>
               (let old = (case h f of None \<Rightarrow> 0 | Some c \<Rightarrow> c) in
                if int64_ok n \<and> int64_ok (old + n)
                then (Inr (Integer (old + n)), st(k \<mapsto> e\<lparr>payload := RHash (h(f \<mapsto> old + n))\<rparr>))
                else (Inl (ResponseError ''ERR increment or decrement would overflow''), st))
           | _ \<Rightarrow> (Inl WRONGTYPE, st)))"
| "exec now (HGETALL k) st =
     (case live now st k of
        None \<Rightarrow> (Inr (Fields Map.empty), st)
      | Some e \<Rightarrow>
          (case payload e of
             RHash h \<Rightarrow> (Inr (Fields h), st)
           | _ \<Rightarrow> (Inl WRONGTYPE, st)))"
| "exec now (EXPIRE k secs) st =
     (case live now st k of
        None \<Rightarrow> (Inr (Integer 0), st(k := None))
      | Some e \<Rightarrow>
          (if secs \<le> 0 then (Inr (Integer 1), st(k := None))
           else (Inr (Integer 1), st(k \<mapsto> e\<lparr>deadline := Some (now + of_int secs)\<rparr>))))"
| "exec now (EXISTS k) st =
     (case live now st k of
        None \<Rightarrow> (Inr (Integer 0), st)
      | Some e \<Rightarrow> (Inr (Integer 1), st))"

text \<open>
  \<^verbatim>\<open>redis_pipeline\<close>: the queued commands run in order when the \<^verbatim>\<open>with\<close> block is left
  (\<^verbatim>\<open>p.execute()\<close>, a MULTI/EXEC transaction: a failing command does not stop the ones
  behind it), and the first error reply is raised afterwards.
\<close>

fun redis_pipeline :: "clock \<Rightarrow> command list \<Rightarrow> redis \<Rightarrow> pyerr option \<times> redis" where
  "redis_pipeline now [] st = (None, st)"
| "redis_pipeline now (c # cs) st =
     (case exec now c st of
        (Inl err, st') \<Rightarrow> (Some err, snd (redis_pipeline now cs st'))
      | (Inr r, st') \<Rightarrow> redis_pipeline now cs st')"

section \<open>Python strings and bytes\<close>

text \<open>
  A \<^verbatim>\<open>str\<close> is given by its UTF-8 encoding (\<^term>\<open>Str\<close>), so \<^verbatim>\<open>s.encode()\<close> is the
  payload of \<^term>\<open>Str\<close>; \<^verbatim>\<open>bytes\<close> has no \<^verbatim>\<open>encode\<close> attribute. \<^verbatim>\<open>b.decode()\<close>
  raises on bytes that are not UTF-8.
\<close>

definition NAMESPACE_DELIMITER :: bytes where
  "NAMESPACE_DELIMITER = '':''"

definition PREFIX_DELIMITER :: bytes where
  "PREFIX_DELIMITER = NAMESPACE_DELIMITER @ NAMESPACE_DELIMITER"

fun bytes_in :: "bytes \<Rightarrow> bytes \<Rightarrow> bool" where
  "bytes_in sub [] = (sub = [])"
| "bytes_in sub (c # cs) = (take (length sub) (c # cs) = sub \<or> bytes_in sub cs)"

text \<open>\<^verbatim>\<open>s.split(sep, 1)\<close>: the parts before and after the first occurrence of \<open>sep\<close>.\<close>

fun split_once :: "bytes \<Rightarrow> bytes \<Rightarrow> (bytes \<times> bytes) option" where
  "split_once sep [] = (if sep = [] then Some ([], []) else None)"
| "split_once sep (c # cs) =
     (if take (length sep) (c # cs) = sep then Some ([], drop (length sep) (c # cs))
      else (case split_once sep cs of
              None \<Rightarrow> None
            | Some (a, b) \<Rightarrow> Some (c # a, b)))"

definition cont_byte :: "char \<Rightarrow> bool" where
  "cont_byte c \<longleftrightarrow> (128::nat) \<le> of_char c \<and> (of_char c :: nat) < 192"

fun utf8_valid :: "bytes \<Rightarrow> bool" where
  "utf8_valid [] = True"
| "utf8_valid (a # rest) =
     (let x = (of_char a :: nat) in
      if x < 128 then utf8_valid rest
      else if 194 \<le> x \<and> x < 224 then
        (case rest of
           b # r \<Rightarrow> cont_byte b \<and> utf8_valid r
         | _ \<Rightarrow> False)
      else if 224 \<le> x \<and> x < 240 then
        (case rest of
           b # c # r \<Rightarrow>
             cont_byte b \<and> cont_byte c
             \<and> (x = 224 \<longrightarrow> (160::nat) \<le> of_char b)
             \<and> (x = 237 \<longrightarrow> (of_char b :: nat) < 160)
             \<and> utf8_valid r
         | _ \<Rightarrow> False)
      else if 240 \<le> x \<and> x < 245 then
        (case rest of
           b # c # d # r \<Rightarrow>
             cont_byte b \<and> cont_byte c \<and> cont_byte d
             \<and> (x = 240 \<longrightarrow> (144::nat) \<le> of_char b)
             \<and> (x = 244 \<longrightarrow> (of_char b :: nat) < 144)
             \<and> utf8_valid r
         | _ \<Rightarrow> False)
      else False)"

definition hex_digit :: "nat \<Rightarrow> char" where
  "hex_digit n = ''0123456789abcdef'' ! (n mod 16)"

text \<open>\<^verbatim>\<open>repr\<close> of a bytes object, which is what \<^verbatim>\<open>'{}'.format(b)\<close> inserts.\<close>

definition repr_quote :: "bytes \<Rightarrow> char" where
  "repr_quote b = (if CHR 0x27 \<in> set b \<and> CHR 0x22 \<notin> set b then CHR 0x22 else CHR 0x27)"

definition repr_byte :: "char \<Rightarrow> char \<Rightarrow> string" where
  "repr_byte q c =
     (if c = q \<or> c = CHR 0x5C then [CHR 0x5C, c]
      else if c = CHR 0x09 then [CHR 0x5C, CHR ''t'']
      else if c = CHR 0x0A then [CHR 0x5C, CHR ''n'']
      else if c = CHR 0x0D then [CHR 0x5C, CHR ''r'']
      else if (of_char c :: nat) < 32 \<or> (127::nat) \<le> of_char c
        then [CHR 0x5C, CHR ''x'', hex_digit (of_char c div 16), hex_digit (of_char c)]
      else [c])"

definition repr_bytes :: "bytes \<Rightarrow> string" where
  "repr_bytes b = ''b'' @ [repr_quote b] @ concat (map (repr_byte (repr_quote b)) b) @ [repr_quote b]"

section \<open>The cache dictionary\<close>

text \<open>
  The serializer (\<^verbatim>\<open>json.dumps\<close>, \<^verbatim>\<open>json.loads\<close>) is a parameter: \<open>None\<close> is any
  exception it raises, which the source catches with \<^verbatim>\<open>except Exception\<close>.
\<close>

record 'v codec =
  dumps :: "'v \<Rightarrow> bytes option"
  loads :: "bytes \<Rightarrow> 'v option"

record lru =
  unique_key :: bytes
  max_size :: int
  expiration :: int
  access_key :: bytes
  stat_key :: bytes
  once_clean_size :: int

definition EXPIRATION_STAT_KEY :: int where
  "EXPIRATION_STAT_KEY = 30 * 86400"

definition HIT :: bytes where "HIT = ''HIT''"
definition MISS :: bytes where "MISS = ''MISS''"
definition POP :: bytes where "POP = ''POP''"
definition SET :: bytes where "SET = ''SET''"
definition DEL_STAT :: bytes where "DEL_STAT = ''DEL''"
definition DUMPS_ERROR :: bytes where "DUMPS_ERROR = ''DUMPS_ERROR''"
definition LOADS_ERROR :: bytes where "LOADS_ERROR = ''LOADS_ERROR''"

text \<open>
  \<^verbatim>\<open>int(max_size * ONCE_CLEAN_RATIO)\<close> is computed in floating point. A finite float
  (IEEE 754 binary64) is given by a pair \<open>(m, e)\<close> that denotes \<open>m * 2 ^ e\<close>. A result is
  rounded to 53 significant bits, to the nearest value and to the even one on a tie.
  The two operations below stay in the range of normal numbers: the conversion of an
  int raises \<^verbatim>\<open>OverflowError\<close> when the rounded value reaches \<open>2 ^ 1024\<close>, and the
  product of a float that came from an int with the ratio is zero or lies between
  \<open>2 ^ - 4\<close> and the float itself.
\<close>

function bit_length :: "int \<Rightarrow> nat" where
  "bit_length n = (if n \<le> 0 then 0 else Suc (bit_length (n div 2)))"
  by pat_completeness auto
termination
  by (relation "measure nat") auto

declare bit_length.simps [simp del]

type_synonym pyfloat = "int \<times> int"

definition round53 :: "int \<Rightarrow> int \<Rightarrow> pyfloat" where
  "round53 m e =
     (if bit_length \<bar>m\<bar> \<le> 53 then (m, e)
      else
        (let d = bit_length \<bar>m\<bar> - 53;
             q = \<bar>m\<bar> div 2 ^ d;
             r = \<bar>m\<bar> mod 2 ^ d;
             half = 2 ^ (d - 1);
             q' = (if half < r \<or> (r = half \<and> odd q) then q + 1 else q)
         in (sgn m * q', e + int d)))"

text \<open>The conversion of an int operand (\<^verbatim>\<open>PyLong_AsDouble\<close>).\<close>

definition float_of_int :: "int \<Rightarrow> pyerr + pyfloat" where
  "float_of_int n =
     (case round53 n 0 of
        (m, e) \<Rightarrow> if 2 ^ 1024 \<le> \<bar>m\<bar> * 2 ^ nat e then Inl OverflowError else Inr (m, e))"

definition float_mul :: "pyfloat \<Rightarrow> pyfloat \<Rightarrow> pyfloat" where
  "float_mul x y = round53 (fst x * fst y) (snd x + snd y)"

text \<open>\<^verbatim>\<open>int(x)\<close> of a float truncates towards zero.\<close>

definition int_of_float :: "pyfloat \<Rightarrow> int" where
  "int_of_float x =
     (if 0 \<le> snd x then fst x * 2 ^ nat (snd x)
      else sgn (fst x) * (\<bar>fst x\<bar> div 2 ^ nat (- snd x)))"

text \<open>The float literal \<^verbatim>\<open>0.1\<close>: \<open>3602879701896397 / 2 ^ 55\<close>.\<close>

definition ONCE_CLEAN_RATIO :: pyfloat where
  "ONCE_CLEAN_RATIO = (3602879701896397, - 55)"

definition int_tenth :: "int \<Rightarrow> pyerr + int" where
  "int_tenth n =
     (case float_of_int n of
        Inl err \<Rightarrow> Inl err
      | Inr x \<Rightarrow> Inr (int_of_float (float_mul x ONCE_CLEAN_RATIO)))"

text \<open>
  \<^verbatim>\<open>__init__\<close>. \<open>uuid4\<close> is the value \<^verbatim>\<open>uuid.uuid4().bytes\<close> would give; the client is the
  store the other arguments are run against.
\<close>

definition init ::
  "bytes \<Rightarrow> pykey option \<Rightarrow> int \<Rightarrow> int \<Rightarrow> bool \<Rightarrow> clock \<Rightarrow> redis \<Rightarrow> (pyerr + lru) \<times> redis" where
  "init uuid4 uk msize expir clear_stat now st =
     (let given = (case uk of
                     None \<Rightarrow> None
                   | Some (Str s) \<Rightarrow> Some s
                   | Some (Bytes b) \<Rightarrow> Some b)
      in if (case given of None \<Rightarrow> False | Some u \<Rightarrow> bytes_in PREFIX_DELIMITER u)
         then (Inl (ValueError (''Invalid unique key: '' @ repr_bytes (the given))), st)
         else
           (let u = (case given of None \<Rightarrow> uuid4 | Some u \<Rightarrow> u)
            in case int_tenth msize of
                 Inl err \<Rightarrow> (Inl err, st)
               | Inr tenth \<Rightarrow>
                   (let self = \<lparr>unique_key = u, max_size = msize, expiration = expir,
                                access_key = ''lru-access:'' @ repr_bytes u,
                                stat_key = ''lru-stat:'' @ repr_bytes u,
                                once_clean_size = tenth\<rparr>
                    in if clear_stat
                       then (case exec now (DEL (stat_key self)) st of
                               (Inl err, st') \<Rightarrow> (Inl err, st')
                             | (Inr r, st') \<Rightarrow> (Inr self, st'))
                       else (Inr self, st))))"

text \<open>The decorator \<^verbatim>\<open>joint_key\<close>: the method runs on the physical key.\<close>

definition physical_key :: "lru \<Rightarrow> bytes \<Rightarrow> bytes" where
  "physical_key self k = ''lru-value:'' @ unique_key self @ PREFIX_DELIMITER @ k"

definition joint_key ::
  "(lru \<Rightarrow> bytes \<Rightarrow> redis \<Rightarrow> (pyerr + 'r) \<times> redis) \<Rightarrow> lru \<Rightarrow> pykey \<Rightarrow> redis \<Rightarrow> (pyerr + 'r) \<times> redis" where
  "joint_key method self key st =
     (case key of
        Str k \<Rightarrow> method self (physical_key self k) st
      | Bytes b \<Rightarrow> (Inl (AttributeError ''encode''), st))"

text \<open>
  The methods of redis-py's \<^verbatim>\<open>StrictRedis\<close> that take one key, by attribute name;
  any other name of this shape is an \<^verbatim>\<open>AttributeError\<close>.
\<close>

definition StrictRedis_attr :: "string \<Rightarrow> (bytes \<Rightarrow> command) option" where
  "StrictRedis_attr name =
     (if name = ''get'' then Some GET
      else if name = ''delete'' then Some DEL
      else if name = ''zcard'' then Some ZCARD
      else if name = ''hgetall'' then Some HGETALL
      else if name = ''exists'' then Some EXISTS
      else None)"

definition client_get :: "clock \<Rightarrow> bytes \<Rightarrow> redis \<Rightarrow> pyerr + bytes option" where
  "client_get now k st =
     (case fst (exec now (GET k) st) of
        Inl err \<Rightarrow> Inl err
      | Inr (Bulk v) \<Rightarrow> Inr (Some v)
      | Inr _ \<Rightarrow> Inr None)"

definition client_zrange :: "clock \<Rightarrow> bytes \<Rightarrow> int \<Rightarrow> int \<Rightarrow> redis \<Rightarrow> pyerr + bytes list" where
  "client_zrange now k start stop st =
     (case fst (exec now (ZRANGE k start stop) st) of
        Inl err \<Rightarrow> Inl err
      | Inr (Multi ks) \<Rightarrow> Inr ks
      | Inr _ \<Rightarrow> Inr [])"

definition report_usage :: "lru \<Rightarrow> clock \<Rightarrow> redis \<Rightarrow> pyerr + (bytes \<rightharpoonup> int)" where
  "report_usage self now st =
     (case fst (exec now (HGETALL (stat_key self)) st) of
        Inl err \<Rightarrow> Inl err
      | Inr (Fields h) \<Rightarrow> Inr h
      | Inr _ \<Rightarrow> Inr Map.empty)"

definition size_lru :: "lru \<Rightarrow> clock \<Rightarrow> redis \<Rightarrow> pyerr + int" where
  "size_lru self now st =
     (case fst (exec now (ZCARD (access_key self)) st) of
        Inl err \<Rightarrow> Inl err
      | Inr (Integer n) \<Rightarrow> Inr n
      | Inr _ \<Rightarrow> Inr 0)"

definition raise_first :: "pyerr option \<times> redis \<Rightarrow> 'r \<Rightarrow> (pyerr + 'r) \<times> redis" where
  "raise_first res r = (case res of (None, st) \<Rightarrow> (Inr r, st) | (Some err, st) \<Rightarrow> (Inl err, st))"

definition evict_commands :: "lru \<Rightarrow> bytes list \<Rightarrow> command list" where
  "evict_commands self keys =
     concat (map (\<lambda>k. [DEL k, ZREM (access_key self) k]) keys)
     @ [HINCRBY (stat_key self) POP (int (length keys))]"

definition ensure_room :: "clock \<Rightarrow> lru \<Rightarrow> redis \<Rightarrow> (pyerr + bool) \<times> redis" where
  "ensure_room now self st =
     (case size_lru self now st of
        Inl err \<Rightarrow> (Inl err, st)
      | Inr n \<Rightarrow>
          if n < max_size self then (Inr True, st)
          else
            (case client_zrange now (access_key self) 0 (once_clean_size self) st of
               Inl err \<Rightarrow> (Inl err, st)
             | Inr keys \<Rightarrow> raise_first (redis_pipeline now (evict_commands self keys) st) False))"

definition setitem_body :: "'v codec \<Rightarrow> clock \<Rightarrow> 'v \<Rightarrow> lru \<Rightarrow> bytes \<Rightarrow> redis \<Rightarrow> (pyerr + unit) \<times> redis" where
  "setitem_body J now v self key st =
     (case dumps J v of
        None \<Rightarrow>
          raise_first
            (redis_pipeline now
               [HINCRBY (stat_key self) DUMPS_ERROR 1,
                EXPIRE (stat_key self) EXPIRATION_STAT_KEY] st) ()
      | Some encoded \<Rightarrow>
          (case ensure_room now self st of
             (Inl err, st') \<Rightarrow> (Inl err, st')
           | (Inr room, st') \<Rightarrow>
               raise_first
                 (redis_pipeline now
                    [SETEX key (expiration self) encoded,
                     ZADD (access_key self) now key,
                     EXPIRE (access_key self) (expiration self),
                     HINCRBY (stat_key self) SET 1,
                     EXPIRE (stat_key self) EXPIRATION_STAT_KEY] st') ()))"

definition setitem :: "'v codec \<Rightarrow> clock \<Rightarrow> lru \<Rightarrow> pykey \<Rightarrow> 'v \<Rightarrow> redis \<Rightarrow> (pyerr + unit) \<times> redis" where
  "setitem J now self key v = joint_key (setitem_body J now v) self key"

definition delitem_body :: "clock \<Rightarrow> lru \<Rightarrow> bytes \<Rightarrow> redis \<Rightarrow> (pyerr + unit) \<times> redis" where
  "delitem_body now self key st =
     raise_first
       (redis_pipeline now
          [DEL key,
           ZREM (access_key self) key,
           EXPIRE (access_key self) (expiration self),
           HINCRBY (stat_key self) DEL_STAT 1,
           EXPIRE (stat_key self) EXPIRATION_STAT_KEY] st) ()"

definition delitem :: "clock \<Rightarrow> lru \<Rightarrow> pykey \<Rightarrow> redis \<Rightarrow> (pyerr + unit) \<times> redis" where
  "delitem now self key = joint_key (delitem_body now) self key"

text \<open>
  \<^verbatim>\<open>__getitem__\<close>. On a miss the pipeline is executed inside the \<^verbatim>\<open>with\<close> block and once
  more, empty, when the block is left.
\<close>

definition getitem_body :: "'v codec \<Rightarrow> clock \<Rightarrow> lru \<Rightarrow> bytes \<Rightarrow> redis \<Rightarrow> (pyerr + 'v) \<times> redis" where
  "getitem_body J now self key st =
     (case client_get now key st of
        Inl err \<Rightarrow> (Inl err, st)
      | Inr None \<Rightarrow>
          (case redis_pipeline now
                  [HINCRBY (stat_key self) MISS 1,
                   EXPIRE (stat_key self) EXPIRATION_STAT_KEY] st of
             (Some err, st') \<Rightarrow> (Inl err, st')
           | (None, st') \<Rightarrow>
               (case redis_pipeline now [] st' of
                  (Some err, st'') \<Rightarrow> (Inl err, st'')
                | (None, st'') \<Rightarrow>
                    (case split_once PREFIX_DELIMITER key of
                       None \<Rightarrow> (Inl IndexError, st'')
                     | Some (head, real_key) \<Rightarrow>
                         if utf8_valid real_key then (Inl (KeyError (Str real_key)), st'')
                         else (Inl UnicodeDecodeError, st''))))
      | Inr (Some raw) \<Rightarrow>
          (case loads J raw of
             None \<Rightarrow>
               (case redis_pipeline now
                       [DEL key,
                        HINCRBY (stat_key self) LOADS_ERROR 1,
                        EXPIRE (stat_key self) EXPIRATION_STAT_KEY] st of
                  (Some err, st') \<Rightarrow> (Inl err, st')
                | (None, st') \<Rightarrow> (Inl (KeyError (Bytes key)), st'))
           | Some v \<Rightarrow>
               raise_first
                 (redis_pipeline now
                    [ZADD (access_key self) now key,
                     EXPIRE (access_key self) (expiration self),
                     HINCRBY (stat_key self) HIT 1,
                     EXPIRE (stat_key self) EXPIRATION_STAT_KEY] st) v))"

definition getitem :: "'v codec \<Rightarrow> clock \<Rightarrow> lru \<Rightarrow> pykey \<Rightarrow> redis \<Rightarrow> (pyerr + 'v) \<times> redis" where
  "getitem J now self key = joint_key (getitem_body J now) self key"

text \<open>
  \<^verbatim>\<open>get\<close> is decorated with \<^verbatim>\<open>joint_key\<close> too, and its body evaluates \<^verbatim>\<open>self[key]\<close> on the
  key it received, which is the physical key, a bytes object.
\<close>

definition get_body :: "'v codec \<Rightarrow> clock \<Rightarrow> 'v \<Rightarrow> lru \<Rightarrow> bytes \<Rightarrow> redis \<Rightarrow> (pyerr + 'v) \<times> redis" where
  "get_body J now dflt self key st =
     (case getitem J now self (Bytes key) st of
        (Inl (KeyError k), st') \<Rightarrow> (Inr dflt, st')
      | other \<Rightarrow> other)"

definition get :: "'v codec \<Rightarrow> clock \<Rightarrow> lru \<Rightarrow> pykey \<Rightarrow> 'v \<Rightarrow> redis \<Rightarrow> (pyerr + 'v) \<times> redis" where
  "get J now self key dflt = joint_key (get_body J now dflt) self key"

definition contains_body :: "clock \<Rightarrow> lru \<Rightarrow> bytes \<Rightarrow> redis \<Rightarrow> (pyerr + bool) \<times> redis" where
  "contains_body now self key st =
     (case StrictRedis_attr ''exist'' of
        None \<Rightarrow> (Inl (AttributeError ''exist''), st)
      | Some cmd \<Rightarrow>
          (case exec now (cmd key) st of
             (Inl err, st') \<Rightarrow> (Inl err, st')
           | (Inr (Integer n), st') \<Rightarrow> (Inr (n \<noteq> 0), st')
           | (Inr r, st') \<Rightarrow> (Inr True, st')))"

definition contains :: "clock \<Rightarrow> lru \<Rightarrow> pykey \<Rightarrow> redis \<Rightarrow> (pyerr + bool) \<times> redis" where
  "contains now self key = joint_key (contains_body now) self key"

section \<open>The memoizing decorator\<close>

text \<open>
  Call arguments are Python values. \<^verbatim>\<open>hash\<close> is CPython's on a 64-bit build: numbers hash
  by their value modulo \<open>2^61 - 1\<close>, so equal numbers of different types hash alike;
  a list is unhashable (\<open>None\<close> stands for the \<^verbatim>\<open>TypeError\<close>). The hashes of strings (salted
  per process), of tuples and frozensets (combinations of the elements' hashes that differ
  between versions) and of plain objects (derived from the address) are parameters.
\<close>

datatype pyval =
    PyInt int
  | PyFloat rat
  | PyStr bytes
  | PyTuple "pyval list"
  | PyList "pyval list"

record pyhash =
  str_hash :: "bytes \<Rightarrow> int"
  tuple_hash :: "int list \<Rightarrow> int"
  frozenset_hash :: "int list \<Rightarrow> int"
  object_hash :: "nat \<Rightarrow> int"

definition hash_modulus :: int where
  "hash_modulus = 2 ^ 61 - 1"

definition hash_int :: "int \<Rightarrow> int" where
  "hash_int n =
     (let h = (if n < 0 then - ((- n) mod hash_modulus) else n mod hash_modulus)
      in if h = - 1 then - 2 else h)"

definition hash_float :: "rat \<Rightarrow> int" where
  "hash_float r =
     (let p = fst (quotient_of r);
          q = snd (quotient_of r);
          m = (\<bar>p\<bar> * (q ^ nat (hash_modulus - 2) mod hash_modulus)) mod hash_modulus;
          h = (if p < 0 then - m else m)
      in if h = - 1 then - 2 else h)"

fun py_hash :: "pyhash \<Rightarrow> pyval \<Rightarrow> int option" where
  "py_hash R (PyInt n) = Some (hash_int n)"
| "py_hash R (PyFloat r) = Some (hash_float r)"
| "py_hash R (PyStr s) = Some (str_hash R s)"
| "py_hash R (PyTuple xs) =
     (case those (map (py_hash R) xs) of
        None \<Rightarrow> None
      | Some hs \<Rightarrow> Some (tuple_hash R hs))"
| "py_hash R (PyList xs) = None"

text \<open>
  \<^verbatim>\<open>_hash_args\<close>: \<^verbatim>\<open>hash((hash(args), hash(frozenset(kwargs.items()))))\<close>. A frozenset's
  hash does not depend on the order of its elements: it is given the sorted hashes.
\<close>

definition hash_args :: "pyhash \<Rightarrow> pyval list \<Rightarrow> (bytes \<times> pyval) list \<Rightarrow> int option" where
  "hash_args R args kwargs =
     (case py_hash R (PyTuple args) of
        None \<Rightarrow> None
      | Some h1 \<Rightarrow>
          (case those (map (\<lambda>item. py_hash R (PyTuple [PyStr (fst item), snd item])) kwargs) of
             None \<Rightarrow> None
           | Some hs \<Rightarrow>
               Some (tuple_hash R [hash_int h1, hash_int (frozenset_hash R (sort hs))])))"

text \<open>
  \<^verbatim>\<open>_typed_hash_args\<close>: its second and third components are \<^verbatim>\<open>hash(type(x) for x in args)\<close>
  and \<^verbatim>\<open>hash(type(x) for x in kwargs.values())\<close>, the hashes of two generator objects.
  A generator hashes as a plain object; \<open>g1\<close> and \<open>g2\<close> are the addresses the two
  generators are allocated at, and neither is iterated.
\<close>

definition typed_hash_args ::
  "pyhash \<Rightarrow> nat \<Rightarrow> nat \<Rightarrow> pyval list \<Rightarrow> (bytes \<times> pyval) list \<Rightarrow> int option" where
  "typed_hash_args R g1 g2 args kwargs =
     (case hash_args R args kwargs of
        None \<Rightarrow> None
      | Some h \<Rightarrow>
          Some (tuple_hash R [hash_int h, hash_int (object_hash R g1), hash_int (object_hash R g2)]))"

function hex_nat :: "nat \<Rightarrow> string" where
  "hex_nat n = (if n < 16 then [hex_digit n] else hex_nat (n div 16) @ [hex_digit n])"
  by pat_completeness auto
termination
  by (relation "measure id") auto

definition hex :: "int \<Rightarrow> string" where
  "hex i = (if i < 0 then ''-0x'' @ hex_nat (nat (- i)) else ''0x'' @ hex_nat (nat i))"

definition replace_dots :: "bytes \<Rightarrow> bytes" where
  "replace_dots b = concat (map (\<lambda>c. if c = CHR ''.'' then NAMESPACE_DELIMITER else [c]) b)"

text \<open>
  \<^verbatim>\<open>wrapper\<close>: the cache the decorated function uses, its own unless one was passed in.
  \<open>modname\<close> and \<open>qualname\<close> are \<^verbatim>\<open>func.__module__\<close> and \<^verbatim>\<open>func.__qualname__\<close>.
\<close>

definition wrapper_cache ::
  "bytes \<Rightarrow> int \<Rightarrow> int \<Rightarrow> lru option \<Rightarrow> bytes \<Rightarrow> bytes \<Rightarrow> clock \<Rightarrow> redis \<Rightarrow> (pyerr + lru) \<times> redis" where
  "wrapper_cache uuid4 msize expir cache modname qualname now st =
     (case cache of
        None \<Rightarrow>
          init uuid4
            (Some (Bytes (replace_dots modname @ NAMESPACE_DELIMITER @ replace_dots qualname)))
            msize expir False now st
      | Some c \<Rightarrow> (Inr c, st))"

text \<open>
  \<^verbatim>\<open>inner\<close>: one call of the decorated function. The state is the store and the number of
  times the wrapped callable has run; \<open>t_get\<close> and \<open>t_set\<close> are the clock readings of the
  lookup and of the store after the callable has returned.
\<close>

record 'v decorated =
  typed :: bool
  lru_cache :: lru
  func :: "pyval list \<Rightarrow> (bytes \<times> pyval) list \<Rightarrow> pyerr + 'v"

definition inner ::
  "'v codec \<Rightarrow> pyhash \<Rightarrow> 'v decorated \<Rightarrow> nat \<Rightarrow> nat \<Rightarrow> clock \<Rightarrow> clock
   \<Rightarrow> pyval list \<Rightarrow> (bytes \<times> pyval) list \<Rightarrow> redis \<times> nat \<Rightarrow> (pyerr + 'v) \<times> redis \<times> nat" where
  "inner J R d g1 g2 t_get t_set args kwargs s =
     (case (if typed d then typed_hash_args R g1 g2 args kwargs else hash_args R args kwargs) of
        None \<Rightarrow>
          (Inl (RuntimeError ''All arguments to lru-cached functions must be hashable.''), s)
      | Some h \<Rightarrow>
          (case getitem J t_get (lru_cache d) (Str (hex h)) (fst s) of
             (Inr v, st') \<Rightarrow> (Inr v, st', snd s)
           | (Inl (KeyError k), st') \<Rightarrow>
               (case func d args kwargs of
                  Inl err \<Rightarrow> (Inl err, st', Suc (snd s))
                | Inr v \<Rightarrow>
                    (case setitem J t_set (lru_cache d) (Str (hex h)) v st' of
                       (Inl err, st'') \<Rightarrow> (Inl err, st'', Suc (snd s))
                     | (Inr u, st'') \<Rightarrow> (Inr v, st'', Suc (snd s))))
           | (Inl err, st') \<Rightarrow> (Inl err, st', snd s)))"

text \<open>
  A fragment of the \<^verbatim>\<open>json\<close> codec, for concrete runs: the values \<^verbatim>\<open>None\<close>, \<^verbatim>\<open>True\<close> and
  \<^verbatim>\<open>False\<close>, a plain \<^verbatim>\<open>object()\<close>, which \<^verbatim>\<open>json.dumps\<close> rejects with a
  \<^verbatim>\<open>TypeError\<close>, the empty tuple \<^verbatim>\<open>()\<close> and the empty list \<^verbatim>\<open>[]\<close>. A tuple is written
  as a JSON array, and an array is read as a list. Texts outside the fragment are not
  decoded.
\<close>

datatype jlit = JNone | JTrue | JFalse | JObject | JTuple | JList

definition json_literals :: "jlit codec" where
  "json_literals =
     \<lparr>dumps = (\<lambda>v. case v of
                  JNone \<Rightarrow> Some ''null''
                | JTrue \<Rightarrow> Some ''true''
                | JFalse \<Rightarrow> Some ''false''
                | JObject \<Rightarrow> None
                | JTuple \<Rightarrow> Some ''[]''
                | JList \<Rightarrow> Some ''[]''),
      loads = (\<lambda>raw. if raw = ''null'' then Some JNone
                  else if raw = ''true'' then Some JTrue
                  else if raw = ''false'' then Some JFalse
                  else if raw = ''[]'' then Some JList
                  else None)\<rparr>"

text \<open>
  Concrete parameters for concrete runs: a hash runtime, and the cache of the class
  docstring, \<^verbatim>\<open>RedisLRUCacheDict('unique_key', max_size=3, expiration=1)\<close>.
\<close>

definition demo_hash :: pyhash where
  "demo_hash =
     \<lparr>str_hash = (\<lambda>s. int (length s)),
      tuple_hash = (\<lambda>hs. sum_list hs + 7),
      frozenset_hash = (\<lambda>hs. sum_list hs + 11),
      object_hash = (\<lambda>a. int a)\<rparr>"

definition demo_cache :: lru where
  "demo_cache =
     \<lparr>unique_key = ''unique_key'', max_size = 3, expiration = 1,
      access_key = ''lru-access:b'' @ [CHR 0x27] @ ''unique_key'' @ [CHR 0x27],
      stat_key = ''lru-stat:b'' @ [CHR 0x27] @ ''unique_key'' @ [CHR 0x27],
      once_clean_size = 0\<rparr>"

section \<open>Observations on the store\<close>

text \<open>The key a command addresses.\<close>

fun ckey :: "command \<Rightarrow> bytes" where
  "ckey (GET k) = k"
| "ckey (SETEX k secs v) = k"
| "ckey (DEL k) = k"
| "ckey (ZADD k score m) = k"
| "ckey (ZREM k m) = k"
| "ckey (ZRANGE k start stop) = k"
| "ckey (ZCARD k) = k"
| "ckey (HINCRBY k f n) = k"
| "ckey (HGETALL k) = k"
| "ckey (EXPIRE k secs) = k"
| "ckey (EXISTS k) = k"

text \<open>A usage counter as \<^verbatim>\<open>report_usage\<close> shows it; a counter never written reads 0.\<close>

definition counter :: "lru \<Rightarrow> bytes \<Rightarrow> clock \<Rightarrow> redis \<Rightarrow> int" where
  "counter self name now st =
     (case report_usage self now st of
        Inl err \<Rightarrow> 0
      | Inr h \<Rightarrow> (case h name of None \<Rightarrow> 0 | Some c \<Rightarrow> c))"

text \<open>A field of a hash key as the store holds it at a clock reading; 0 when absent.\<close>

definition hfield :: "clock \<Rightarrow> redis \<Rightarrow> bytes \<Rightarrow> bytes \<Rightarrow> int" where
  "hfield now st s f =
     (case live now st s of
        None \<Rightarrow> 0
      | Some e \<Rightarrow>
          (case payload e of
             RHash h \<Rightarrow> (case h f of None \<Rightarrow> 0 | Some c \<Rightarrow> c)
           | _ \<Rightarrow> 0))"

text \<open>A store whose entry for \<^verbatim>\<open>foo\<close> is not JSON.\<close>

definition corrupt_store :: redis where
  "corrupt_store = [''lru-value:unique_key::foo'' \<mapsto> \<lparr>payload = RString ''{oops'', deadline = None\<rparr>]"

text \<open>The store after \<^verbatim>\<open>d['foo'] = True\<close> at time 0 on the docstring's cache, started empty.\<close>

definition after_set :: redis where
  "after_set =
     [''lru-value:unique_key::foo'' \<mapsto> \<lparr>payload = RString ''true'', deadline = Some 1\<rparr>,
      ''lru-access:b'' @ [CHR 0x27] @ ''unique_key'' @ [CHR 0x27]
        \<mapsto> \<lparr>payload = RZSet [(''lru-value:unique_key::foo'', 0)], deadline = Some 1\<rparr>,
      ''lru-stat:b'' @ [CHR 0x27] @ ''unique_key'' @ [CHR 0x27]
        \<mapsto> \<lparr>payload = RHash [''SET'' \<mapsto> 1], deadline = Some 2592000\<rparr>]"

text \<open>The same store after \<^verbatim>\<open>d['foo']\<close> at time 1/4.\<close>

definition after_get :: redis where
  "after_get =
     [''lru-value:unique_key::foo'' \<mapsto> \<lparr>payload = RString ''true'', deadline = Some 1\<rparr>,
      ''lru-access:b'' @ [CHR 0x27] @ ''unique_key'' @ [CHR 0x27]
        \<mapsto> \<lparr>payload = RZSet [(''lru-value:unique_key::foo'', 1 / 4)], deadline = Some (5 / 4)\<rparr>,
      ''lru-stat:b'' @ [CHR 0x27] @ ''unique_key'' @ [CHR 0x27]
        \<mapsto> \<lparr>payload = RHash [''SET'' \<mapsto> 1, ''HIT'' \<mapsto> 1], deadline = Some (10368001 / 4)\<rparr>]"

text \<open>The store after \<^verbatim>\<open>d['foo'] = ()\<close> at time 0 on the docstring's cache, started empty.\<close>

definition after_set_tuple :: redis where
  "after_set_tuple =
     [''lru-value:unique_key::foo'' \<mapsto> \<lparr>payload = RString ''[]'', deadline = Some 1\<rparr>,
      ''lru-access:b'' @ [CHR 0x27] @ ''unique_key'' @ [CHR 0x27]
        \<mapsto> \<lparr>payload = RZSet [(''lru-value:unique_key::foo'', 0)], deadline = Some 1\<rparr>,
      ''lru-stat:b'' @ [CHR 0x27] @ ''unique_key'' @ [CHR 0x27]
        \<mapsto> \<lparr>payload = RHash [''SET'' \<mapsto> 1], deadline = Some 2592000\<rparr>]"

text \<open>
  A run of reads \<^verbatim>\<open>d[k]\<close>, each with its clock reading; what a read returns or raises is
  dropped and the run goes on.
\<close>

fun get_many :: "'v codec \<Rightarrow> lru \<Rightarrow> (clock \<times> pykey) list \<Rightarrow> redis \<Rightarrow> redis" where
  "get_many J self [] st = st"
| "get_many J self (g # gs) st = get_many J self gs (snd (getitem J (fst g) self (snd g) st))"

text \<open>
  An identity with which the first \<^verbatim>\<open>::\<close> of every physical key is the delimiter that
  \<^verbatim>\<open>joint_key\<close> put there: it is not empty, does not begin or end with a colon, and has no
  two colons in a row.
\<close>

definition plain_identity :: "bytes \<Rightarrow> bool" where
  "plain_identity u \<longleftrightarrow>
     u \<noteq> [] \<and> hd u \<noteq> CHR '':'' \<and> last u \<noteq> CHR '':'' \<and> \<not> bytes_in PREFIX_DELIMITER u"

text \<open>The records of a sorted set as stored, whatever the clock.\<close>

definition records :: "redis \<Rightarrow> bytes \<Rightarrow> (bytes \<times> rat) list" where
  "records st a =
     (case st a of
        None \<Rightarrow> []
      | Some e \<Rightarrow> (case payload e of RZSet z \<Rightarrow> z | _ \<Rightarrow> []))"

text \<open>The tracker holds the records \<open>zz\<close> under the entry \<open>e\<close>; an empty sorted set is no key.\<close>

definition tracker_at :: "redis \<Rightarrow> bytes \<Rightarrow> entry \<Rightarrow> (bytes \<times> rat) list \<Rightarrow> bool" where
  "tracker_at st a e zz \<longleftrightarrow>
     st a = Some (e\<lparr>payload := RZSet zz\<rparr>) \<or> (zz = [] \<and> st a = None)"

text \<open>The commands the loop of \<^verbatim>\<open>_ensure_room\<close> queues.\<close>

definition evict_loop :: "bytes \<Rightarrow> bytes list \<Rightarrow> command list" where
  "evict_loop a keys = concat (map (\<lambda>k. [DEL k, ZREM a k]) keys)"

text \<open>A tracker at capacity for the docstring's cache: three entries, accessed at times 1, 2 and 3.\<close>

definition demo_tracker :: "(bytes \<times> rat) list" where
  "demo_tracker =
     [(''lru-value:unique_key::b'', 2), (''lru-value:unique_key::a'', 1),
      (''lru-value:unique_key::c'', 3)]"

definition full_store :: redis where
  "full_store =
     [''lru-value:unique_key::a'' \<mapsto> \<lparr>payload = RString ''true'', deadline = Some 10\<rparr>,
      ''lru-value:unique_key::b'' \<mapsto> \<lparr>payload = RString ''false'', deadline = Some 10\<rparr>,
      ''lru-value:unique_key::c'' \<mapsto> \<lparr>payload = RString ''null'', deadline = Some 10\<rparr>,
      ''lru-access:b'' @ [CHR 0x27] @ ''unique_key'' @ [CHR 0x27]
        \<mapsto> \<lparr>payload = RZSet demo_tracker, deadline = Some 10\<rparr>]"

text \<open>
  Two decorated functions on the docstring's cache, without typed hashing: one returns
  \<^verbatim>\<open>True\<close>, the other an \<^verbatim>\<open>object()\<close>; and the store each leaves after its first call
  \<^verbatim>\<open>f(3)\<close> on an empty store.
\<close>

definition demo_memo :: "jlit decorated" where
  "demo_memo = \<lparr>typed = False, lru_cache = demo_cache, func = (\<lambda>args kwargs. Inr JTrue)\<rparr>"

definition demo_memo_object :: "jlit decorated" where
  "demo_memo_object = \<lparr>typed = False, lru_cache = demo_cache, func = (\<lambda>args kwargs. Inr JObject)\<rparr>"

definition memo_after_first :: redis where
  "memo_after_first =
     fst (snd (inner json_literals demo_hash demo_memo 0 0 0 0 [PyInt 3] [] (Map.empty, 0)))"

definition object_after_first :: redis where
  "object_after_first =
     fst (snd (inner json_literals demo_hash demo_memo_object 0 0 0 0 [PyInt 3] [] (Map.empty, 0)))"

text \<open>Commands that cannot add a record to the sorted set at \<open>a\<close>.\<close>

fun keeps_count :: "bytes \<Rightarrow> command \<Rightarrow> bool" where
  "keeps_count a (DEL k) = True"
| "keeps_count a (ZREM k m) = True"
| "keeps_count a (EXPIRE k secs) = True"
| "keeps_count a c = (ckey c \<noteq> a)"

text \<open>A run of \<^verbatim>\<open>d[k] = v\<close> statements, each with its clock reading; an exception is caught
  and the run goes on.\<close>

fun set_many :: "'v codec \<Rightarrow> lru \<Rightarrow> (clock \<times> bytes \<times> 'v) list \<Rightarrow> redis \<Rightarrow> redis" where
  "set_many J self [] st = st"
| "set_many J self (op # ops) st =
     set_many J self ops (snd (setitem J (fst op) self (Str (fst (snd op))) (snd (snd op)) st))"

text \<open>Every statement of a run stores an encodable value and raises nothing.\<close>

fun sets_ok :: "'v codec \<Rightarrow> lru \<Rightarrow> (clock \<times> bytes \<times> 'v) list \<Rightarrow> redis \<Rightarrow> bool" where
  "sets_ok J self [] st = True"
| "sets_ok J self (op # ops) st =
     (dumps J (snd (snd op)) \<noteq> None
      \<and> fst (setitem J (fst op) self (Str (fst (snd op))) (snd (snd op)) st) = Inr ()
      \<and> sets_ok J self ops (snd (setitem J (fst op) self (Str (fst (snd op))) (snd (snd op)) st)))"

text \<open>No clock reading of a run is more than \<open>ttl\<close> after the one before it.\<close>

fun paced :: "rat \<Rightarrow> clock option \<Rightarrow> clock list \<Rightarrow> bool" where
  "paced ttl prev [] = True"
| "paced ttl prev (t # ts) =
     ((case prev of None \<Rightarrow> True | Some t0 \<Rightarrow> t \<le> t0 + ttl) \<and> paced ttl (Some t) ts)"

text \<open>
  The tracker holds exactly the keys \<open>ks\<close>, latest first, and was refreshed at \<open>prev\<close>;
  before the first write there is no tracker.
\<close>

definition tracking :: "lru \<Rightarrow> redis \<Rightarrow> bytes list \<Rightarrow> clock option \<Rightarrow> bool" where
  "tracking self st ks prev =
     (case prev of
        None \<Rightarrow> ks = [] \<and> st (access_key self) = None
      | Some t \<Rightarrow>
          (case st (access_key self) of
             None \<Rightarrow> False
           | Some e \<Rightarrow>
               deadline e = Some (t + of_int (expiration self))
               \<and> (case payload e of
                     RZSet z \<Rightarrow> map fst z = map (physical_key self) (rev ks)
                   | _ \<Rightarrow> False)))"

text \<open>
  A cache of one entry, \<^verbatim>\<open>RedisLRUCacheDict('k', max_size=1, expiration=1)\<close>, and the store
  after \<^verbatim>\<open>d['a'] = True\<close> at time 0, started empty.
\<close>

definition small_cache :: lru where
  "small_cache =
     \<lparr>unique_key = ''k'', max_size = 1, expiration = 1,
      access_key = ''lru-access:b'' @ [CHR 0x27] @ ''k'' @ [CHR 0x27],
      stat_key = ''lru-stat:b'' @ [CHR 0x27] @ ''k'' @ [CHR 0x27],
      once_clean_size = 0\<rparr>"

definition after_a :: redis where
  "after_a =
     [''lru-value:k::a'' \<mapsto> \<lparr>payload = RString ''true'', deadline = Some 1\<rparr>,
      ''lru-access:b'' @ [CHR 0x27] @ ''k'' @ [CHR 0x27]
        \<mapsto> \<lparr>payload = RZSet [(''lru-value:k::a'', 0)], deadline = Some 1\<rparr>,
      ''lru-stat:b'' @ [CHR 0x27] @ ''k'' @ [CHR 0x27]
        \<mapsto> \<lparr>payload = RHash [''SET'' \<mapsto> 1], deadline = Some 2592000\<rparr>]"

text \<open>The same store after the eviction pass of a second write at time 1/2.\<close>

definition after_evict_a :: redis where
  "after_evict_a =
     [''lru-stat:b'' @ [CHR 0x27] @ ''k'' @ [CHR 0x27]
        \<mapsto> \<lparr>payload = RHash [''SET'' \<mapsto> 1, ''POP'' \<mapsto> 1], deadline = Some 2592000\<rparr>]"

text \<open>
  A cache whose identity begins with a colon, \<^verbatim>\<open>RedisLRUCacheDict(b':\xff', max_size=3,
  expiration=1)\<close>: the constructor accepts it, as it has no two colons in a row.
\<close>

definition colon_cache :: lru where
  "colon_cache =
     \<lparr>unique_key = [CHR '':'', CHR 0xFF], max_size = 3, expiration = 1,
      access_key = ''lru-access:b'' @ [CHR 0x27] @ '':'' @ [CHR 0x5C] @ ''xff'' @ [CHR 0x27],
      stat_key = ''lru-stat:b'' @ [CHR 0x27] @ '':'' @ [CHR 0x5C] @ ''xff'' @ [CHR 0x27],
      once_clean_size = 0\<rparr>"

section \<open>The size of an eviction batch\<close>

text \<open>
  Below \<open>2 ^ 51\<close> the float computation gives the exact tenth, rounded down; from about
  \<open>6.7 * 10 ^ 15\<close> on it does not (\<^verbatim>\<open>int(100000000000000009 * 0.1)\<close> is
  \<open>10000000000000002\<close>). For every positive \<open>max_size\<close> the result is below \<open>max_size\<close>.
\<close>

lemma bit_length_bounds: "0 < n \<Longrightarrow> 2 ^ (bit_length n - 1) \<le> n \<and> n < 2 ^ bit_length n"
proof (induction n rule: bit_length.induct)
  case (1 n)
  show ?case
  proof (cases "n = 1")
    case True
    then show ?thesis by (simp add: bit_length.simps)
  next
    case False
    with 1(2) have pos: "0 < n div 2" by simp
    have ih: "2 ^ (bit_length (n div 2) - 1) \<le> n div 2 \<and> n div 2 < 2 ^ bit_length (n div 2)"
      using 1(1) 1(2) pos by simp
    have bl: "bit_length n = Suc (bit_length (n div 2))"
      using 1(2) by (subst bit_length.simps) simp
    have blp: "0 < bit_length (n div 2)"
      using pos by (subst bit_length.simps) simp
    then obtain k where k: "bit_length (n div 2) = Suc k" by (cases "bit_length (n div 2)") auto
    have a: "2 * (n div 2) \<le> n" and b: "n < 2 * (n div 2) + 2" by presburger+
    from ih have "2 * 2 ^ k \<le> 2 * (n div 2)" and "2 * (n div 2) + 2 \<le> 2 * (2 * 2 ^ k)"
      unfolding k by simp_all
    with a b show ?thesis unfolding bl k by simp
  qed
qed

lemma bit_length_le: "0 \<le> n \<Longrightarrow> n < 2 ^ k \<Longrightarrow> bit_length n \<le> k"
proof (cases "n = 0")
  case True
  then show ?thesis by (simp add: bit_length.simps)
next
  case False
  assume "0 \<le> n" "n < 2 ^ k"
  with False have pos: "0 < n" by simp
  have "(2::int) ^ (bit_length n - 1) \<le> n" using bit_length_bounds [OF pos] by simp
  also note \<open>n < 2 ^ k\<close>
  finally have "bit_length n - 1 < k" by (simp add: power_strict_increasing_iff)
  then show ?thesis by simp
qed

lemma div_ge: "0 < (D::int) \<Longrightarrow> a * D \<le> M \<Longrightarrow> a \<le> M div D"
  using zdiv_mono1 [of "a * D" M D] by simp

lemma div_lt:
  assumes "0 < (D::int)" and "M < k * D"
  shows "M div D < k"
proof (rule ccontr)
  assume "\<not> M div D < k"
  then have "k * D \<le> (M div D) * D" using assms(1) by (simp add: mult_right_mono)
  also have "\<dots> \<le> M"
    using div_mult_mod_eq [of M D] pos_mod_sign [OF assms(1), of M] by linarith
  finally show False using assms(2) by simp
qed

text \<open>What rounding does to a positive significand.\<close>

lemma round53_pos:
  assumes "0 < m"
  obtains d m' where "round53 m e = (m', e + int d)"
    and "m' = m div 2 ^ d \<or> m' = m div 2 ^ d + 1"
    and "bit_length m \<le> 53 + d"
    and "d = 0 \<or> 2 ^ (52 + d) \<le> m"
proof (cases "bit_length \<bar>m\<bar> \<le> 53")
  case True
  then have "round53 m e = (m, e + int 0)" by (simp add: round53_def)
  moreover have "m = m div 2 ^ (0::nat)" by simp
  ultimately show ?thesis using that [of m 0] True assms by simp
next
  case False
  define d where "d = bit_length m - 53"
  have dpos: "0 < d" and bl: "bit_length m = 53 + d" using False assms by (simp_all add: d_def)
  have lo: "2 ^ (52 + d) \<le> m" using bit_length_bounds [OF assms] by (simp add: bl)
  define q' where "q' = (if 2 ^ (d - 1) < m mod 2 ^ d \<or> (m mod 2 ^ d = 2 ^ (d - 1) \<and> odd (m div 2 ^ d))
                         then m div 2 ^ d + 1 else m div 2 ^ d)"
  have "round53 m e = (q', e + int d)"
    using False assms by (simp add: round53_def Let_def d_def q'_def)
  moreover have "q' = m div 2 ^ d \<or> q' = m div 2 ^ d + 1" by (simp add: q'_def)
  ultimately show ?thesis using that [of q' d] bl lo by simp
qed

lemma int_tenth_exact:
  assumes "0 \<le> n" and "n < 2 ^ 51"
  shows "int_tenth n = Inr (n div 10)"
proof (cases "n = 0")
  case True
  then show ?thesis
    by (simp add: int_tenth_def float_of_int_def round53_def float_mul_def int_of_float_def
        ONCE_CLEAN_RATIO_def bit_length.simps)
next
  case False
  with assms have npos: "0 < n" by simp
  have bn: "bit_length \<bar>n\<bar> \<le> 53"
    using bit_length_le [of n 53] assms by simp
  have f: "float_of_int n = Inr (n, 0)"
    using bn assms by (simp add: float_of_int_def round53_def)
  define M where "M = n * 3602879701896397"
  have Mpos: "0 < M" using npos by (simp add: M_def)
  have Mlt: "M < 2 ^ 103" using assms by (simp add: M_def)
  obtain d m' where r: "round53 M (- 55) = (m', - 55 + int d)"
    and m': "m' = M div 2 ^ d \<or> m' = M div 2 ^ d + 1"
    and bl: "bit_length M \<le> 53 + d" and lo: "d = 0 \<or> 2 ^ (52 + d) \<le> M"
    using round53_pos [OF Mpos, of "- 55"] by blast
  have d50: "d \<le> 50"
  proof (rule ccontr)
    assume "\<not> d \<le> 50"
    then have "51 \<le> d" by simp
    then have "(2::int) ^ (52 + 51) \<le> 2 ^ (52 + d)" by (intro power_increasing) simp_all
    with lo \<open>51 \<le> d\<close> Mlt show False by simp
  qed
  define D :: int where "D = 2 ^ d"
  define P :: int where "P = 2 ^ (55 - d)"
  define K :: int where "K = 2 ^ 55"
  have DP: "D * P = K"
    using d50 by (simp add: D_def P_def K_def flip: power_add)
  have Dpos: "0 < D" and Ppos: "0 < P" by (simp_all add: D_def P_def)
  have Dle: "D \<le> 2 ^ 50" unfolding D_def using d50 by (intro power_increasing) simp_all
  have mD: "m' = M div D \<or> m' = M div D + 1" using m' by (simp add: D_def)
  define q where "q = n div 10"
  have n10: "10 * q \<le> n" "n < 10 * q + 10" unfolding q_def by presburger+
  have lowM: "q * K \<le> M" using n10 npos unfolding M_def K_def by simp
  have upM: "M + D < (q + 1) * K"
    using n10 assms Dle unfolding M_def K_def by simp
  have "q * P * D = q * (D * P)" by (simp only: ac_simps)
  then have "q * P * D \<le> M" using lowM by (simp only: DP)
  then have lo1: "q * P \<le> M div D"
    using Dpos by (intro div_ge)
  have "((q + 1) * P - 1) * D = (q + 1) * (D * P) - D" by (simp add: algebra_simps)
  then have "M < ((q + 1) * P - 1) * D" using upM by (simp only: DP)
  then have up1: "M div D < (q + 1) * P - 1"
    using Dpos by (intro div_lt)
  have bounds: "q * P \<le> m'" "m' < (q + 1) * P" using mD lo1 up1 by auto
  then have mq: "m' div P = q"
    using Ppos by (intro int_div_pos_eq [where r = "m' - P * q"]) (simp_all add: algebra_simps)
  have qnn: "0 \<le> q" using npos by (simp add: q_def)
  have m'pos: "0 \<le> m'" using bounds(1) qnn Ppos by (meson mult_nonneg_nonneg less_imp_le order_trans)
  have nd: "nat (55 - int d) = 55 - d" using d50 by simp
  have "int_of_float (m', - 55 + int d) = q"
  proof (cases "m' = 0")
    case True
    with mq have "q = 0" by simp
    with True show ?thesis using d50 by (simp add: int_of_float_def)
  next
    case False
    with m'pos have "0 < m'" by simp
    then show ?thesis using d50 mq by (simp add: int_of_float_def nd P_def)
  qed
  then show ?thesis
    using f r by (simp add: int_tenth_def float_mul_def ONCE_CLEAN_RATIO_def M_def q_def)
qed


lemma div_mult_le: "0 < (D::int) \<Longrightarrow> (M div D) * D \<le> M"
  using div_mult_mod_eq [of M D] pos_mod_sign [of D M] by linarith

lemma round53_le:
  assumes "0 < m"
  obtains d m' where "round53 m e = (m', e + int d)" and "0 < m'" and "m' * 2 ^ d \<le> 2 * m"
proof -
  obtain d m' where r: "round53 m e = (m', e + int d)"
    and m': "m' = m div 2 ^ d \<or> m' = m div 2 ^ d + 1"
    and lo: "d = 0 \<or> 2 ^ (52 + d) \<le> m"
    using round53_pos [OF assms, of e] by blast
  have le: "(2::int) ^ d \<le> 2 ^ (52 + d)" by (intro power_increasing) simp_all
  have dm: "(m div 2 ^ d) * 2 ^ d \<le> m" by (intro div_mult_le) simp
  have one: "1 \<le> m div 2 ^ d"
  proof (cases "d = 0")
    case True
    then show ?thesis using assms by simp
  next
    case False
    with lo have "2 ^ (52 + d) \<le> m" by simp
    with le have "1 * 2 ^ d \<le> m" by linarith
    then show ?thesis by (intro div_ge) simp_all
  qed
  have pos: "0 < m'" using m' one by auto
  have "m' * 2 ^ d \<le> (m div 2 ^ d + 1) * 2 ^ d"
    using m' by (intro mult_right_mono) auto
  also have "\<dots> = (m div 2 ^ d) * 2 ^ d + 2 ^ d" by (simp add: algebra_simps)
  also have "\<dots> \<le> m + 2 ^ d" using dm by simp
  also have "\<dots> \<le> 2 * m"
  proof (cases "d = 0")
    case True
    then show ?thesis using assms by simp
  next
    case False
    with lo have "2 ^ (52 + d) \<le> m" by simp
    with le show ?thesis by linarith
  qed
  finally show ?thesis using that [OF r pos] by simp
qed

lemma int_tenth_bounds:
  assumes "0 < n" and "int_tenth n = Inr k"
  shows "0 \<le> k \<and> k < n"
proof -
  obtain d1 m1 where r1: "round53 n 0 = (m1, 0 + int d1)" and p1: "0 < m1"
    and l1: "m1 * 2 ^ d1 \<le> 2 * n"
    using round53_le [OF assms(1), of 0] by blast
  have f: "float_of_int n = Inr (m1, int d1)"
    using assms(2) r1 by (simp add: int_tenth_def float_of_int_def split: if_splits)
  define M where "M = m1 * 3602879701896397"
  have Mpos: "0 < M" using p1 by (simp add: M_def)
  obtain d2 m2 where r2: "round53 M (int d1 - 55) = (m2, int d1 - 55 + int d2)" and p2: "0 < m2"
    and l2: "m2 * 2 ^ d2 \<le> 2 * M"
    using round53_le [OF Mpos, of "int d1 - 55"] by blast
  have k: "k = int_of_float (m2, int d1 - 55 + int d2)"
    using assms(2) f r2 by (simp add: int_tenth_def float_mul_def ONCE_CLEAN_RATIO_def M_def)
  have "m2 * 2 ^ d2 * 2 ^ d1 \<le> 2 * M * 2 ^ d1" using l2 by (intro mult_right_mono) simp_all
  also have "\<dots> = 2 * 3602879701896397 * (m1 * 2 ^ d1)" by (simp add: M_def)
  also have "\<dots> \<le> 2 * 3602879701896397 * (2 * n)" using l1 by (intro mult_left_mono) simp_all
  finally have chain0: "m2 * 2 ^ d2 * 2 ^ d1 \<le> 2 * 3602879701896397 * (2 * n)" .
  have e1: "m2 * 2 ^ (d1 + d2) = m2 * 2 ^ d2 * 2 ^ d1" by (simp add: power_add)
  have e2: "2 * 3602879701896397 * (2 * n) = 14411518807585588 * n" by simp
  have chain: "m2 * 2 ^ (d1 + d2) \<le> 14411518807585588 * n"
    using chain0 unfolding e1 e2 .
  have key: "0 \<le> k \<and> k * 2 ^ 55 \<le> m2 * 2 ^ (d1 + d2)"
  proof (cases "55 \<le> d1 + d2")
    case True
    then have e: "nat (int d1 - 55 + int d2) = d1 + d2 - 55" by simp
    have "k = m2 * 2 ^ (d1 + d2 - 55)" using True p2 by (simp add: k int_of_float_def e)
    moreover have "(2::int) ^ (d1 + d2 - 55) * 2 ^ 55 = 2 ^ (d1 + d2)"
      using True by (simp only: flip: power_add) simp
    ultimately show ?thesis using p2 by (simp add: mult.assoc)
  next
    case False
    then have e: "nat (55 - int d1 - int d2) = 55 - (d1 + d2)" by simp
    have kk: "k = m2 div 2 ^ (55 - (d1 + d2))"
      using False p2 by (simp add: k int_of_float_def e)
    have pw: "(2::int) ^ (55 - (d1 + d2)) * 2 ^ (d1 + d2) = 2 ^ 55"
      using False by (simp only: flip: power_add) simp
    have "k * 2 ^ (55 - (d1 + d2)) \<le> m2" unfolding kk by (intro div_mult_le) simp
    then have "k * 2 ^ (55 - (d1 + d2)) * 2 ^ (d1 + d2) \<le> m2 * 2 ^ (d1 + d2)"
      by (intro mult_right_mono) simp_all
    then have "k * 2 ^ 55 \<le> m2 * 2 ^ (d1 + d2)" using pw by (simp add: mult.assoc)
    moreover have "0 \<le> k" unfolding kk using p2 by (simp add: pos_imp_zdiv_nonneg_iff)
    ultimately show ?thesis by simp
  qed
  with chain have "k * 2 ^ 55 \<le> 14411518807585588 * n" by linarith
  with assms(1) have "k < n" by simp
  with key show ?thesis by simp
qed

lemma int_tenth_3: "int_tenth 3 = Inr 0"
  using int_tenth_exact [of 3] by simp

lemma int_tenth_1: "int_tenth 1 = Inr 0"
  using int_tenth_exact [of 1] by simp

section \<open>Hashing the call arguments\<close>

lemma those_map_None: "those (map f xs) = None \<longleftrightarrow> (\<exists>x\<in>set xs. f x = None)"
  by (induction xs) (auto split: option.splits)

lemma py_hash_tuple_None: "py_hash R (PyTuple xs) = None \<longleftrightarrow> (\<exists>x\<in>set xs. py_hash R x = None)"
proof -
  have "py_hash R (PyTuple xs) = None \<longleftrightarrow> those (map (py_hash R) xs) = None"
    by (simp split: option.splits)
  then show ?thesis by (simp only: those_map_None)
qed

lemma hash_args_None:
  "hash_args R args kwargs = None \<longleftrightarrow>
     (\<exists>a\<in>set args. py_hash R a = None) \<or> (\<exists>item\<in>set kwargs. py_hash R (snd item) = None)"
proof -
  have item: "py_hash R (PyTuple [PyStr k, v]) = None \<longleftrightarrow> py_hash R v = None" for k v
    by (simp only: py_hash_tuple_None) simp
  have kw: "those (map (\<lambda>item. py_hash R (PyTuple [PyStr (fst item), snd item])) kwargs) = None
      \<longleftrightarrow> (\<exists>item\<in>set kwargs. py_hash R (snd item) = None)"
    by (simp only: those_map_None item)
  have "hash_args R args kwargs = None \<longleftrightarrow>
      py_hash R (PyTuple args) = None
      \<or> those (map (\<lambda>item. py_hash R (PyTuple [PyStr (fst item), snd item])) kwargs) = None"
    unfolding hash_args_def
    by (cases "py_hash R (PyTuple args)";
        cases "those (map (\<lambda>item. py_hash R (PyTuple [PyStr (fst item), snd item])) kwargs)";
        simp del: py_hash.simps)
  then show ?thesis
    by (simp only: kw py_hash_tuple_None)
qed

lemma hash_float_1: "hash_float 1 = 1"
  by (simp add: hash_float_def hash_modulus_def)

lemma hash_int_1: "hash_int 1 = 1"
  by (simp add: hash_int_def hash_modulus_def)

text \<open>
  C4. With typed hashing the key of \<^verbatim>\<open>f(1)\<close> and the key of \<^verbatim>\<open>f(1.0)\<close> should differ. They
  do not: the typed hash adds the hashes of two generator objects to the untyped hash,
  never the types, so both calls get the same hash whenever their generators are
  allocated at the same addresses. Without typed hashing the two calls share their hash,
  as claimed.
\<close>

theorem typed_hash_ignores_types:
  "typed_hash_args R g1 g2 [PyInt 1] [] = typed_hash_args R g1 g2 [PyFloat 1] []
   \<and> hash_args R [PyInt 1] [] = hash_args R [PyFloat 1] []"
  by (simp add: typed_hash_args_def hash_args_def hash_float_1 hash_int_1)

text \<open>
  C8. A call with an unhashable positional or keyword argument raises the decorator's
  own error (a \<^verbatim>\<open>RuntimeError\<close>, not the \<^verbatim>\<open>KeyError\<close> of a miss); the store is left as it
  was and the wrapped callable has not run.
\<close>

theorem unhashable_arguments_raise:
  assumes "(\<exists>a\<in>set args. py_hash R a = None) \<or> (\<exists>item\<in>set kwargs. py_hash R (snd item) = None)"
  shows "inner J R d g1 g2 t_get t_set args kwargs s =
           (Inl (RuntimeError ''All arguments to lru-cached functions must be hashable.''), s)"
proof -
  have "hash_args R args kwargs = None"
    using assms hash_args_None by blast
  then show ?thesis
    by (simp add: inner_def typed_hash_args_def)
qed

theorem unhashable_arguments_raise_witness:
  "((\<exists>a\<in>set [PyInt 3, PyList []]. py_hash demo_hash a = None)
     \<or> (\<exists>item\<in>set []. py_hash demo_hash (snd item) = None))
   \<and> inner json_literals demo_hash
        \<lparr>typed = True, lru_cache = demo_cache, func = (\<lambda>args kwargs. Inr JTrue)\<rparr>
        0 0 0 0 [PyInt 3, PyList []] [] (Map.empty, 0)
      = (Inl (RuntimeError ''All arguments to lru-cached functions must be hashable.''),
         Map.empty, 0)"
proof -
  have h: "(\<exists>a\<in>set [PyInt 3, PyList []]. py_hash demo_hash a = None)
     \<or> (\<exists>item\<in>set ([] :: (bytes \<times> pyval) list). py_hash demo_hash (snd item) = None)"
    by simp
  show ?thesis
    using h unhashable_arguments_raise [OF h] by simp
qed

section \<open>Key names and the dictionary interface\<close>

text \<open>
  C7. The tracker and the counters should be stored under \<^verbatim>\<open>lru-access:<identity>\<close> and
  \<^verbatim>\<open>lru-stat:<identity>\<close>. The constructor formats the identity, a bytes object, with
  \<^verbatim>\<open>str.format\<close>, which inserts its \<^verbatim>\<open>repr\<close>: for the docstring's cache the two names
  are \<^verbatim>\<open>lru-access:b'unique_key'\<close> and \<^verbatim>\<open>lru-stat:b'unique_key'\<close>. Entry keys are built by
  concatenation and carry the raw identity.
\<close>

theorem init_key_names:
  "fst (init uuid4 (Some (Str ''unique_key'')) 3 1 False now st) = Inr demo_cache
   \<and> access_key demo_cache = ''lru-access:b'' @ [CHR 0x27] @ ''unique_key'' @ [CHR 0x27]
   \<and> stat_key demo_cache = ''lru-stat:b'' @ [CHR 0x27] @ ''unique_key'' @ [CHR 0x27]
   \<and> access_key demo_cache \<noteq> ''lru-access:unique_key''
   \<and> stat_key demo_cache \<noteq> ''lru-stat:unique_key''
   \<and> joint_key (\<lambda>self key s. (Inr key, s)) demo_cache (Str ''foo'') st
       = (Inr ''lru-value:unique_key::foo'', st)"
  by (simp add: init_def demo_cache_def PREFIX_DELIMITER_def NAMESPACE_DELIMITER_def
      repr_bytes_def repr_quote_def repr_byte_def int_tenth_3 joint_key_def physical_key_def)

text \<open>
  C6. The membership probe should answer with a boolean. It looks up the attribute
  \<^verbatim>\<open>exist\<close> of the client, which the client does not have, and raises
  \<^verbatim>\<open>AttributeError\<close> for every key, leaving the store untouched.
\<close>

theorem contains_raises:
  "contains now self (Str k) st = (Inl (AttributeError ''exist''), st)"
  by (simp add: contains_def joint_key_def contains_body_def StrictRedis_attr_def)

text \<open>
  C10. \<^verbatim>\<open>get(k, d)\<close> should return the default on a miss and the cached value on a hit.
  The method is decorated with \<^verbatim>\<open>joint_key\<close> and then indexes \<^verbatim>\<open>self\<close>, which applies
  \<^verbatim>\<open>joint_key\<close> a second time, to a bytes object: every call raises \<^verbatim>\<open>AttributeError\<close>,
  whatever the store holds.
\<close>

theorem get_raises:
  "get J now self (Str k) dflt st = (Inl (AttributeError ''encode''), st)"
  by (simp add: get_def joint_key_def get_body_def getitem_def)

section \<open>Commands and pipelines\<close>

lemma exec_error: "fst (exec now c st) = Inl err \<Longrightarrow> \<exists>m. err = ResponseError m"
  by (cases c) (auto simp: WRONGTYPE_def Let_def split: option.splits rvalue.splits if_splits)

lemma pipeline_error: "fst (redis_pipeline now cs st) = Some err \<Longrightarrow> \<exists>m. err = ResponseError m"
proof (induction cs arbitrary: st)
  case Nil
  then show ?case by simp
next
  case (Cons c cs)
  obtain r st' where ex: "exec now c st = (r, st')" by (cases "exec now c st")
  show ?case
  proof (cases r)
    case (Inl e)
    with ex Cons.prems have "err = e" by simp
    moreover from ex Inl have "fst (exec now c st) = Inl e" by simp
    ultimately show ?thesis using exec_error by blast
  next
    case (Inr x)
    with ex Cons.prems have "fst (redis_pipeline now cs st') = Some err" by simp
    then show ?thesis by (rule Cons.IH)
  qed
qed

lemma exec_frame: "ckey c \<noteq> k \<Longrightarrow> snd (exec now c st) k = st k"
  by (cases c) (auto simp: Let_def split: option.splits rvalue.splits if_splits)

lemma pipeline_frame: "\<forall>c\<in>set cs. ckey c \<noteq> k \<Longrightarrow> snd (redis_pipeline now cs st) k = st k"
proof (induction cs arbitrary: st)
  case Nil
  then show ?case by simp
next
  case (Cons c cs)
  obtain r st' where ex: "exec now c st = (r, st')" by (cases "exec now c st")
  have a: "st' k = st k" using exec_frame [of c k now st] Cons.prems ex by simp
  have b: "snd (redis_pipeline now cs st') k = st' k" using Cons by simp
  show ?case using ex a b by (cases r) simp_all
qed

lemma init_keys:
  assumes "fst (init uuid4 uk msize expir cs t0 st0) = Inr self"
  shows "access_key self = ''lru-access:'' @ repr_bytes (unique_key self)"
    and "stat_key self = ''lru-stat:'' @ repr_bytes (unique_key self)"
    and "max_size self = msize"
    and "expiration self = expir"
    and "int_tenth msize = Inr (once_clean_size self)"
  using assms
  by (auto simp: init_def Let_def split: if_splits option.splits pykey.splits prod.splits sum.splits)

lemma live_upd_other: "k' \<noteq> k \<Longrightarrow> live now (st(k := x)) k' = live now st k'"
  by (simp add: live_def)

lemma live_upd_del: "live now (st(k := None)) k = None"
  by (simp add: live_def)

lemma live_SomeD:
  "live now st k = Some e \<Longrightarrow> st k = Some e \<and> (\<forall>d. deadline e = Some d \<longrightarrow> \<not> d < now)"
  by (auto simp: live_def split: option.splits if_splits)

lemma live_upd_same:
  "live now (st(k \<mapsto> e)) k = (if (\<exists>d. deadline e = Some d \<and> d < now) then None else Some e)"
  by (auto simp: live_def split: option.splits)

lemma live_cong: "st1 k = st k \<Longrightarrow> live now st1 k = live now st k"
  by (simp add: live_def)

lemma counter_hfield: "counter self name now st = hfield now st (stat_key self) name"
  by (simp add: counter_def report_usage_def hfield_def split: option.splits rvalue.splits)

lemma pipeline_Cons_fst:
  "fst (redis_pipeline now (c # cs) st) = None \<longleftrightarrow>
     (\<exists>r. fst (exec now c st) = Inr r) \<and> fst (redis_pipeline now cs (snd (exec now c st))) = None"
  by (cases "exec now c st"; cases "fst (exec now c st)") auto

lemma pipeline_Cons_snd:
  "snd (redis_pipeline now (c # cs) st) = snd (redis_pipeline now cs (snd (exec now c st)))"
  by (cases "exec now c st"; cases "fst (exec now c st)") auto

lemma hfield_hincrby:
  assumes "fst (exec now (HINCRBY s f n) st) = Inr r"
  shows "hfield now (snd (exec now (HINCRBY s f n) st)) s f = hfield now st s f + n"
proof (cases "live now st s")
  case None
  with assms show ?thesis
    by (simp add: hfield_def live_upd_same split: if_splits)
next
  case (Some e)
  note lv = live_SomeD [OF Some]
  show ?thesis
  proof (cases "payload e")
    case (RHash h)
    with assms Some lv show ?thesis
      by (auto simp: hfield_def live_upd_same Let_def split: if_splits)
  qed (use assms Some in \<open>simp_all add: WRONGTYPE_def\<close>)
qed

lemma hfield_expire:
  assumes "0 < secs"
  shows "hfield now (snd (exec now (EXPIRE s secs) st)) s f = hfield now st s f"
proof (cases "live now st s")
  case None
  then show ?thesis by (simp add: hfield_def live_upd_del)
next
  case (Some e)
  with assms show ?thesis
    by (simp add: hfield_def live_upd_same)
qed

lemma key_families:
  assumes "fst (init uuid4 uk msize expir cs t0 st0) = Inr self"
  shows "physical_key self k \<noteq> access_key self"
    and "physical_key self k \<noteq> stat_key self"
    and "access_key self \<noteq> stat_key self"
  using init_keys(1,2) [OF assms] by (simp_all add: physical_key_def)


lemma hfield_frame: "st1 s = st s \<Longrightarrow> hfield now st1 s f = hfield now st s f"
  by (simp add: hfield_def live_def)

lemma exec_DEL_gone: "snd (exec now (DEL k) st) k = None"
  by (simp split: option.splits)

section \<open>Reading an entry\<close>

lemmas demo_defs =
  demo_cache_def physical_key_def PREFIX_DELIMITER_def NAMESPACE_DELIMITER_def
  EXPIRATION_STAT_KEY_def HIT_def MISS_def POP_def SET_def DEL_STAT_def DUMPS_ERROR_def
  LOADS_ERROR_def json_literals_def int64_ok_def live_def raise_first_def

lemma init_demo: "fst (init uuid4 (Some (Str ''unique_key'')) 3 1 False now st) = Inr demo_cache"
  by (simp add: init_def demo_cache_def PREFIX_DELIMITER_def NAMESPACE_DELIMITER_def
      repr_bytes_def repr_quote_def repr_byte_def int_tenth_3)


text \<open>
  C9. When the entry stored for a key is present and does not decode, \<^verbatim>\<open>__getitem__\<close>
  deletes the entry, adds one to the \<^verbatim>\<open>LOADS_ERROR\<close> counter and raises the \<^verbatim>\<open>KeyError\<close>
  of a miss; the decoder's exception does not reach the caller. Errors of the store
  itself propagate, as everywhere.
\<close>

theorem undecodable_entry_is_dropped:
  assumes mk: "fst (init uuid4 uk msize expir cs t0 st0) = Inr self"
    and present: "client_get now (physical_key self k) st = Inr (Some raw)"
    and bad: "loads J raw = None"
    and run: "getitem J now self (Str k) st = (r, st')"
    and accepted: "\<forall>m. r \<noteq> Inl (ResponseError m)"
  shows "r = Inl (KeyError (Bytes (physical_key self k)))
       \<and> st' (physical_key self k) = None
       \<and> counter self LOADS_ERROR now st' = counter self LOADS_ERROR now st + 1"
proof -
  let ?p = "physical_key self k"
  let ?s = "stat_key self"
  let ?cs = "[DEL ?p, HINCRBY ?s LOADS_ERROR 1, EXPIRE ?s EXPIRATION_STAT_KEY]"
  have ps: "?p \<noteq> ?s" using key_families(2) [OF mk] .
  obtain err st1 where pl: "redis_pipeline now ?cs st = (err, st1)"
    by (cases "redis_pipeline now ?cs st")
  have res: "(r, st') = (case err of Some e \<Rightarrow> (Inl e, st1) | None \<Rightarrow> (Inl (KeyError (Bytes ?p)), st1))"
    using run present bad pl
    by (simp add: getitem_def joint_key_def getitem_body_def split: option.splits)
  have none: "err = None"
  proof (cases err)
    case None then show ?thesis .
  next
    case (Some e)
    then have "fst (redis_pipeline now ?cs st) = Some e" by (simp only: pl fst_conv)
    then obtain m where "e = ResponseError m" using pipeline_error by blast
    with Some res accepted show ?thesis by simp
  qed
  then have r: "r = Inl (KeyError (Bytes ?p))" and st': "st' = st1" using res by simp_all
  let ?a = "snd (exec now (DEL ?p) st)"
  let ?b = "snd (exec now (HINCRBY ?s LOADS_ERROR 1) ?a)"
  let ?c = "snd (exec now (EXPIRE ?s EXPIRATION_STAT_KEY) ?b)"
  have fstNone: "fst (redis_pipeline now ?cs st) = None" by (simp only: pl none fst_conv)
  have "st1 = snd (redis_pipeline now ?cs st)" by (simp only: pl snd_conv)
  then have st1: "st1 = ?c"
    by (simp only: pipeline_Cons_snd redis_pipeline.simps(1) snd_conv)
  have hok: "\<exists>r. fst (exec now (HINCRBY ?s LOADS_ERROR 1) ?a) = Inr r"
    using fstNone by (simp only: pipeline_Cons_fst) 
  have a_s: "?a ?s = st ?s" using exec_frame [of "DEL ?p" ?s now st] ps by simp
  have "hfield now ?c ?s LOADS_ERROR = hfield now ?b ?s LOADS_ERROR"
    by (rule hfield_expire) (simp add: EXPIRATION_STAT_KEY_def)
  also have "\<dots> = hfield now ?a ?s LOADS_ERROR + 1"
    using hok hfield_hincrby by blast
  also have "hfield now ?a ?s LOADS_ERROR = hfield now st ?s LOADS_ERROR"
    using a_s by (rule hfield_frame)
  finally have cnt: "counter self LOADS_ERROR now st1 = counter self LOADS_ERROR now st + 1"
    by (simp only: counter_hfield st1)
  have "?a ?p = None" by (rule exec_DEL_gone)
  moreover have "?b ?p = ?a ?p" using exec_frame [of "HINCRBY ?s LOADS_ERROR 1" ?p now ?a] ps by simp
  moreover have "?c ?p = ?b ?p" using exec_frame [of "EXPIRE ?s EXPIRATION_STAT_KEY" ?p now ?b] ps by simp
  ultimately have gone: "st1 ?p = None" using st1 by simp
  show ?thesis using r st' cnt gone by simp
qed


theorem undecodable_entry_is_dropped_witness:
  "fst (init [] (Some (Str ''unique_key'')) 3 1 False 0 Map.empty) = Inr demo_cache
   \<and> client_get 5 (physical_key demo_cache ''foo'') corrupt_store = Inr (Some ''{oops'')
   \<and> loads json_literals ''{oops'' = None
   \<and> (\<forall>m. fst (getitem json_literals 5 demo_cache (Str ''foo'') corrupt_store) \<noteq> Inl (ResponseError m))
   \<and> fst (getitem json_literals 5 demo_cache (Str ''foo'') corrupt_store)
       = Inl (KeyError (Bytes ''lru-value:unique_key::foo''))
   \<and> snd (getitem json_literals 5 demo_cache (Str ''foo'') corrupt_store) ''lru-value:unique_key::foo'' = None
   \<and> counter demo_cache LOADS_ERROR 5 (snd (getitem json_literals 5 demo_cache (Str ''foo'') corrupt_store))
       = counter demo_cache LOADS_ERROR 5 corrupt_store + 1"
proof -
  have h1: "fst (init [] (Some (Str ''unique_key'')) 3 1 False 0 Map.empty) = Inr demo_cache"
    by (rule init_demo)
  have h2: "client_get 5 (physical_key demo_cache ''foo'') corrupt_store = Inr (Some ''{oops'')"
    by (simp add: client_get_def corrupt_store_def demo_defs)
  have h3: "loads json_literals ''{oops'' = None"
    by (simp add: json_literals_def)
  have h4: "getitem json_literals 5 demo_cache (Str ''foo'') corrupt_store
      = (fst (getitem json_literals 5 demo_cache (Str ''foo'') corrupt_store),
         snd (getitem json_literals 5 demo_cache (Str ''foo'') corrupt_store))"
    by simp
  have ev: "fst (getitem json_literals 5 demo_cache (Str ''foo'') corrupt_store)
      = Inl (KeyError (Bytes ''lru-value:unique_key::foo''))"
    by (simp add: getitem_def joint_key_def getitem_body_def client_get_def corrupt_store_def demo_defs)
  have h5: "\<forall>m. fst (getitem json_literals 5 demo_cache (Str ''foo'') corrupt_store) \<noteq> Inl (ResponseError m)"
    by (simp only: ev) simp
  have p: "physical_key demo_cache ''foo'' = ''lru-value:unique_key::foo''"
    by (simp add: demo_defs)
  show ?thesis
    using undecodable_entry_is_dropped [OF h1 h2 h3 h4 h5] h1 h2 h3 h5 by (simp only: p) simp
qed

section \<open>Writing and reading back\<close>

lemma raise_first_Inr: "raise_first res x = (Inr y, st') \<longleftrightarrow> res = (None, st') \<and> y = x"
  by (cases res; cases "fst res") (auto simp: raise_first_def)

lemma raise_first_fst:
  "fst (raise_first res x) = (case fst res of None \<Rightarrow> Inr x | Some err \<Rightarrow> Inl err)"
  by (cases res; cases "fst res") (auto simp: raise_first_def)

lemma raise_first_snd: "snd (raise_first res x) = snd res"
  by (cases res; cases "fst res") (auto simp: raise_first_def)

lemma setitem_stores:
  assumes mk: "fst (init uuid4 uk msize expir cs t0' st0) = Inr self"
    and enc: "dumps J v = Some raw"
    and set: "setitem J t0 self (Str k) v st = (Inr (), st1)"
  shows "st1 (physical_key self k)
           = Some \<lparr>payload = RString raw, deadline = Some (t0 + of_int (expiration self))\<rparr>
         \<and> 0 < expiration self"
proof -
  let ?p = "physical_key self k"
  let ?tail = "[ZADD (access_key self) t0 ?p,
                EXPIRE (access_key self) (expiration self),
                HINCRBY (stat_key self) SET 1,
                EXPIRE (stat_key self) EXPIRATION_STAT_KEY]"
  let ?cs = "SETEX ?p (expiration self) raw # ?tail"
  obtain rr sta where er: "ensure_room t0 self st = (rr, sta)"
    by (cases "ensure_room t0 self st")
  have body: "setitem_body J t0 v self ?p st = (Inr (), st1)"
    using set by (simp add: setitem_def joint_key_def)
  then obtain room where rr: "rr = Inr room"
    using er enc by (cases rr) (simp_all add: setitem_body_def del: redis_pipeline.simps)
  have rf: "raise_first (redis_pipeline t0 ?cs sta) () = (Inr (), st1)"
    using body er enc rr by (simp add: setitem_body_def del: redis_pipeline.simps)
  then have pl: "redis_pipeline t0 ?cs sta = (None, st1)"
    by (simp only: raise_first_Inr)
  have f: "fst (redis_pipeline t0 ?cs sta) = None" by (simp only: pl fst_conv)
  have s: "st1 = snd (redis_pipeline t0 ?cs sta)" by (simp only: pl snd_conv)
  from f have ok: "\<exists>r. fst (exec t0 (SETEX ?p (expiration self) raw) sta) = Inr r"
    by (simp only: pipeline_Cons_fst)
  then have pos: "0 < expiration self"
    by (cases "expiration self \<le> 0") simp_all
  let ?a = "snd (exec t0 (SETEX ?p (expiration self) raw) sta)"
  have a: "?a ?p = Some \<lparr>payload = RString raw, deadline = Some (t0 + of_int (expiration self))\<rparr>"
    using pos by simp
  have "st1 = snd (redis_pipeline t0 ?tail ?a)"
    using s by (simp only: pipeline_Cons_snd)
  moreover have "snd (redis_pipeline t0 ?tail ?a) ?p = ?a ?p"
    by (rule pipeline_frame)
      (use key_families(1) [OF mk, of k] key_families(2) [OF mk, of k] in auto)
  ultimately show ?thesis using a pos by simp
qed

lemma getitem_hit:
  assumes st: "st1 (physical_key self k) = Some \<lparr>payload = RString raw, deadline = Some d\<rparr>"
    and alive: "t1 \<le> d"
    and dec: "loads J raw = Some v"
  shows "fst (getitem J t1 self (Str k) st1) = Inr v
         \<or> (\<exists>m. fst (getitem J t1 self (Str k) st1) = Inl (ResponseError m))"
proof -
  let ?p = "physical_key self k"
  let ?cs = "[ZADD (access_key self) t1 ?p,
              EXPIRE (access_key self) (expiration self),
              HINCRBY (stat_key self) HIT 1,
              EXPIRE (stat_key self) EXPIRATION_STAT_KEY]"
  have g: "client_get t1 ?p st1 = Inr (Some raw)"
    using st alive by (simp add: client_get_def live_def)
  have r: "fst (getitem J t1 self (Str k) st1)
      = (case fst (redis_pipeline t1 ?cs st1) of None \<Rightarrow> Inr v | Some err \<Rightarrow> Inl err)"
    using g dec
    by (simp add: getitem_def joint_key_def getitem_body_def raise_first_fst del: redis_pipeline.simps)
  show ?thesis
  proof (cases "fst (redis_pipeline t1 ?cs st1)")
    case None
    with r show ?thesis by simp
  next
    case (Some e)
    then obtain m where "e = ResponseError m" using pipeline_error by blast
    with r Some show ?thesis by simp
  qed
qed

lemma split_once_append: "split_once sep (a @ sep @ b) \<noteq> None"
proof (induction a)
  case Nil
  show ?case
  proof (cases "sep @ b")
    case Nil
    then show ?thesis by simp
  next
    case (Cons c cs)
    have "take (length sep) (c # cs) = sep" using Cons [symmetric] by simp
    then show ?thesis using Cons by simp
  qed
next
  case (Cons c a)
  then show ?case by (auto split: option.splits)
qed

lemma getitem_miss:
  assumes gone: "live t1 st1 (physical_key self k) = None"
  shows "(\<exists>rk. fst (getitem J t1 self (Str k) st1) = Inl (KeyError (Str rk)))
         \<or> (\<exists>m. fst (getitem J t1 self (Str k) st1) = Inl (ResponseError m))
         \<or> fst (getitem J t1 self (Str k) st1) = Inl UnicodeDecodeError"
proof -
  let ?p = "physical_key self k"
  let ?cs = "[HINCRBY (stat_key self) MISS 1, EXPIRE (stat_key self) EXPIRATION_STAT_KEY]"
  have g: "client_get t1 ?p st1 = Inr None"
    using gone by (simp add: client_get_def)
  have "split_once PREFIX_DELIMITER ((''lru-value:'' @ unique_key self) @ PREFIX_DELIMITER @ k) \<noteq> None"
    by (rule split_once_append)
  then obtain hd rk where sp: "split_once PREFIX_DELIMITER ?p = Some (hd, rk)"
    by (auto simp only: physical_key_def append_assoc)
  obtain err st2 where pl: "redis_pipeline t1 ?cs st1 = (err, st2)"
    by (cases "redis_pipeline t1 ?cs st1")
  have unf: "getitem J t1 self (Str k) st1 = getitem_body J t1 self ?p st1"
    by (simp only: getitem_def joint_key_def pykey.case)
  show ?thesis
  proof (cases err)
    case None
    have "getitem_body J t1 self ?p st1
        = (if utf8_valid rk then (Inl (KeyError (Str rk)), st2) else (Inl UnicodeDecodeError, st2))"
      unfolding getitem_body_def
      by (simp only: g sp pl None sum.case option.case prod.case redis_pipeline.simps(1))
    then show ?thesis by (simp only: unf) simp
  next
    case (Some e)
    then have "fst (redis_pipeline t1 ?cs st1) = Some e" by (simp only: pl fst_conv)
    then obtain m where m: "e = ResponseError m" using pipeline_error by blast
    have "getitem_body J t1 self ?p st1 = (Inl e, st2)"
      unfolding getitem_body_def
      by (simp only: g pl Some sum.case option.case prod.case)
    then show ?thesis by (simp only: unf m) simp
  qed
qed

lemma demo_fields:
  "unique_key demo_cache = ''unique_key''"
  "max_size demo_cache = 3"
  "expiration demo_cache = 1"
  "access_key demo_cache = ''lru-access:b'' @ [CHR 0x27] @ ''unique_key'' @ [CHR 0x27]"
  "stat_key demo_cache = ''lru-stat:b'' @ [CHR 0x27] @ ''unique_key'' @ [CHR 0x27]"
  "once_clean_size demo_cache = 0"
  by (simp_all add: demo_cache_def)

lemmas run_defs =
  demo_fields physical_key_def PREFIX_DELIMITER_def NAMESPACE_DELIMITER_def
  EXPIRATION_STAT_KEY_def HIT_def MISS_def POP_def SET_def DEL_STAT_def DUMPS_ERROR_def
  LOADS_ERROR_def json_literals_def int64_ok_def live_def raise_first_def

lemma ensure_room_empty: "ensure_room 0 demo_cache Map.empty = (Inr True, Map.empty)"
  by (simp add: ensure_room_def size_lru_def run_defs)

lemma setitem_demo:
  "setitem json_literals 0 demo_cache (Str ''foo'') JTrue Map.empty = (Inr (), after_set)"
  by (simp add: setitem_def joint_key_def setitem_body_def ensure_room_empty run_defs after_set_def)

lemma getitem_demo_hit:
  "fst (getitem json_literals (1 / 2) demo_cache (Str ''foo'') after_set) = Inr JTrue"
  by (simp add: getitem_def joint_key_def getitem_body_def client_get_def run_defs after_set_def)

lemma getitem_demo_miss:
  "fst (getitem json_literals 2 demo_cache (Str ''foo'') after_set) = Inl (KeyError (Str ''foo''))"
  by (simp add: getitem_def joint_key_def getitem_body_def client_get_def run_defs after_set_def)

lemma client_get_stored:
  assumes "st p = Some \<lparr>payload = RString raw, deadline = dl\<rparr>"
    and "client_get now p st = Inr (Some raw2)"
  shows "raw2 = raw"
  using assms by (auto simp: client_get_def live_def split: if_splits option.splits)

lemma getitem_body_frame:
  assumes keep: "\<And>raw. client_get now key st = Inr (Some raw) \<Longrightarrow> loads J raw = None \<Longrightarrow> key \<noteq> p"
    and na: "access_key self \<noteq> p" and ns: "stat_key self \<noteq> p"
  shows "snd (getitem_body J now self key st) p = st p"
proof (cases "client_get now key st")
  case (Inl err)
  then show ?thesis by (simp add: getitem_body_def)
next
  case (Inr found)
  show ?thesis
  proof (cases found)
    case None
    let ?cs = "[HINCRBY (stat_key self) MISS 1, EXPIRE (stat_key self) EXPIRATION_STAT_KEY]"
    have fr: "snd (redis_pipeline now ?cs st) p = st p"
      by (rule pipeline_frame) (use ns in auto)
    obtain err st2 where pl: "redis_pipeline now ?cs st = (err, st2)"
      by (cases "redis_pipeline now ?cs st")
    have st2: "st2 p = st p" using fr by (simp only: pl snd_conv)
    have "snd (getitem_body J now self key st) = st2"
      unfolding getitem_body_def
      by (cases err; cases "split_once PREFIX_DELIMITER key")
        (auto simp only: Inr None pl sum.case option.case prod.case redis_pipeline.simps(1) snd_conv
          split: if_splits prod.splits)
    then show ?thesis using st2 by simp
  next
    case (Some raw)
    show ?thesis
    proof (cases "loads J raw")
      case None
      let ?cs = "[DEL key, HINCRBY (stat_key self) LOADS_ERROR 1,
                  EXPIRE (stat_key self) EXPIRATION_STAT_KEY]"
      have "key \<noteq> p" using keep Inr Some None by simp
      then have fr: "snd (redis_pipeline now ?cs st) p = st p"
        by (intro pipeline_frame) (use ns in auto)
      obtain err st2 where pl: "redis_pipeline now ?cs st = (err, st2)"
        by (cases "redis_pipeline now ?cs st")
      have st2: "st2 p = st p" using fr by (simp only: pl snd_conv)
      have "snd (getitem_body J now self key st) = st2"
        unfolding getitem_body_def
        by (cases err) (simp_all only: Inr Some None pl sum.case option.case prod.case snd_conv)
      then show ?thesis using st2 by simp
    next
      case (Some v)
      let ?cs = "[ZADD (access_key self) now key,
                  EXPIRE (access_key self) (expiration self),
                  HINCRBY (stat_key self) HIT 1,
                  EXPIRE (stat_key self) EXPIRATION_STAT_KEY]"
      have fr: "snd (redis_pipeline now ?cs st) p = st p"
        by (rule pipeline_frame) (use na ns in auto)
      have "snd (getitem_body J now self key st) = snd (redis_pipeline now ?cs st)"
        unfolding getitem_body_def
        by (simp only: Inr \<open>found = Some raw\<close> Some sum.case option.case raise_first_snd)
      then show ?thesis using fr by simp
    qed
  qed
qed

lemma getitem_keeps_entry:
  assumes mk: "fst (init uuid4 uk msize expir cs t0 st0) = Inr self"
    and stored: "st (physical_key self k) = Some \<lparr>payload = RString raw, deadline = dl\<rparr>"
    and dec: "loads J raw = Some v"
  shows "snd (getitem J now self key st) (physical_key self k) = st (physical_key self k)"
proof (cases key)
  case (Bytes b)
  then show ?thesis by (simp add: getitem_def joint_key_def)
next
  case (Str k2)
  have "snd (getitem_body J now self (physical_key self k2) st) (physical_key self k)
      = st (physical_key self k)"
  proof (rule getitem_body_frame)
    fix raw2
    assume g: "client_get now (physical_key self k2) st = Inr (Some raw2)"
      and l: "loads J raw2 = None"
    show "physical_key self k2 \<noteq> physical_key self k"
    proof
      assume eq: "physical_key self k2 = physical_key self k"
      have "client_get now (physical_key self k) st = Inr (Some raw2)" using g by (simp only: eq)
      then have "raw2 = raw"
        by (rule client_get_stored [where st = st and p = "physical_key self k", OF stored])
      with l dec show False by simp
    qed
  next
    show "access_key self \<noteq> physical_key self k" using key_families(1) [OF mk, of k] by simp
    show "stat_key self \<noteq> physical_key self k" using key_families(2) [OF mk, of k] by simp
  qed
  then show ?thesis by (simp only: Str getitem_def joint_key_def pykey.case)
qed

lemma get_many_keeps_entry:
  assumes mk: "fst (init uuid4 uk msize expir cs t0 st0) = Inr self"
    and dec: "loads J raw = Some v"
  shows "st (physical_key self k) = Some \<lparr>payload = RString raw, deadline = dl\<rparr>
     \<Longrightarrow> get_many J self gets st (physical_key self k) = st (physical_key self k)"
proof (induction gets arbitrary: st)
  case Nil
  show ?case by simp
next
  case (Cons g gets)
  let ?st = "snd (getitem J (fst g) self (snd g) st)"
  have keep: "?st (physical_key self k) = st (physical_key self k)"
    by (rule getitem_keeps_entry [where st = st and k = k, OF mk Cons.prems dec])
  then have "?st (physical_key self k) = Some \<lparr>payload = RString raw, deadline = dl\<rparr>"
    using Cons.prems by simp
  then have "get_many J self gets ?st (physical_key self k) = ?st (physical_key self k)"
    by (rule Cons.IH)
  then show ?case using keep by simp
qed

lemma bytes_in_Cons2:
  "bytes_in [a, b] (c # d # cs) \<longleftrightarrow> (c = a \<and> d = b) \<or> bytes_in [a, b] (d # cs)"
  by simp

lemma split_once_exact:
  assumes "\<not> bytes_in [a, b] P" and "P \<noteq> []" and "last P \<noteq> a"
  shows "split_once [a, b] (P @ [a, b] @ k) = Some (P, k)"
  using assms
proof (induction P)
  case Nil
  then show ?case by simp
next
  case (Cons c P)
  show ?case
  proof (cases P)
    case Nil
    with Cons.prems have "c \<noteq> a" by simp
    then show ?thesis using Nil by simp
  next
    case (Cons d P')
    have nb: "\<not> (c = a \<and> d = b)" and rest: "\<not> bytes_in [a, b] P"
      using Cons.prems(1) Cons by simp_all
    have "last P \<noteq> a" using Cons.prems(3) Cons by simp
    then have ih: "split_once [a, b] (P @ [a, b] @ k) = Some (P, k)"
      using Cons.IH rest Cons by simp
    have "take 2 ((c # P) @ [a, b] @ k) = [c, d]" using Cons by simp
    then have "take (length [a, b]) ((c # P) @ [a, b] @ k) \<noteq> [a, b]" using nb by simp
    then show ?thesis using ih by simp
  qed
qed

lemma physical_key_split:
  assumes "plain_identity (unique_key self)"
  shows "split_once PREFIX_DELIMITER (physical_key self k) = Some (''lru-value:'' @ unique_key self, k)"
proof -
  obtain c u where u: "unique_key self = c # u" and c: "c \<noteq> CHR '':''"
    using assms by (cases "unique_key self") (auto simp: plain_identity_def)
  have nb: "\<not> bytes_in [CHR '':'', CHR '':''] (''lru-value:'' @ unique_key self)"
    using assms c u by (simp add: plain_identity_def PREFIX_DELIMITER_def NAMESPACE_DELIMITER_def)
  have l: "last (''lru-value:'' @ unique_key self) \<noteq> CHR '':''"
    using assms by (simp add: plain_identity_def)
  have "split_once [CHR '':'', CHR '':''] ((''lru-value:'' @ unique_key self) @ [CHR '':'', CHR '':''] @ k)
      = Some (''lru-value:'' @ unique_key self, k)"
    by (rule split_once_exact) (use nb l in simp_all)
  then show ?thesis
    by (simp add: physical_key_def PREFIX_DELIMITER_def NAMESPACE_DELIMITER_def)
qed

lemma getitem_miss_key:
  assumes gone: "live t1 st1 (physical_key self k) = None"
    and plain: "plain_identity (unique_key self)"
    and utf: "utf8_valid k"
  shows "fst (getitem J t1 self (Str k) st1) = Inl (KeyError (Str k))
         \<or> (\<exists>m. fst (getitem J t1 self (Str k) st1) = Inl (ResponseError m))"
proof -
  let ?p = "physical_key self k"
  let ?cs = "[HINCRBY (stat_key self) MISS 1, EXPIRE (stat_key self) EXPIRATION_STAT_KEY]"
  have g: "client_get t1 ?p st1 = Inr None"
    using gone by (simp add: client_get_def)
  note sp = physical_key_split [OF plain, of k]
  obtain err st2 where pl: "redis_pipeline t1 ?cs st1 = (err, st2)"
    by (cases "redis_pipeline t1 ?cs st1")
  have unf: "getitem J t1 self (Str k) st1 = getitem_body J t1 self ?p st1"
    by (simp only: getitem_def joint_key_def pykey.case)
  show ?thesis
  proof (cases err)
    case None
    have "getitem_body J t1 self ?p st1
        = (if utf8_valid k then (Inl (KeyError (Str k)), st2) else (Inl UnicodeDecodeError, st2))"
      unfolding getitem_body_def
      by (simp only: g sp pl None sum.case option.case prod.case redis_pipeline.simps(1))
    then show ?thesis using utf by (simp only: unf) simp
  next
    case (Some e)
    then have "fst (redis_pipeline t1 ?cs st1) = Some e" by (simp only: pl fst_conv)
    then obtain m where m: "e = ResponseError m" using pipeline_error by blast
    have "getitem_body J t1 self ?p st1 = (Inl e, st2)"
      unfolding getitem_body_def
      by (simp only: g pl Some sum.case option.case prod.case)
    then show ?thesis by (simp only: unf m) simp
  qed
qed


lemma get_many_demo:
  "get_many json_literals demo_cache [(1 / 4, Str ''foo'')] after_set = after_get"
  by (simp add: getitem_def joint_key_def getitem_body_def client_get_def run_defs after_set_def
      after_get_def zadd_member_def fun_upd_twist)

lemma getitem_after_get_hit:
  "fst (getitem json_literals (1 / 2) demo_cache (Str ''foo'') after_get) = Inr JTrue"
  by (simp add: getitem_def joint_key_def getitem_body_def client_get_def run_defs after_get_def)

lemma getitem_after_get_miss:
  "fst (getitem json_literals 2 demo_cache (Str ''foo'') after_get) = Inl (KeyError (Str ''foo''))"
  by (simp add: getitem_def joint_key_def getitem_body_def client_get_def run_defs after_get_def)

lemma setitem_demo_tuple:
  "setitem json_literals 0 demo_cache (Str ''foo'') JTuple Map.empty = (Inr (), after_set_tuple)"
  by (simp add: setitem_def joint_key_def setitem_body_def ensure_room_empty run_defs
      after_set_tuple_def)

lemma getitem_demo_tuple:
  "fst (getitem json_literals (1 / 2) demo_cache (Str ''foo'') after_set_tuple) = Inr JList"
  by (simp add: getitem_def joint_key_def getitem_body_def client_get_def run_defs
      after_set_tuple_def)

text \<open>
  With an identity that begins with a colon, the first \<^verbatim>\<open>::\<close> of a physical key lies
  before the delimiter: a miss cuts the key there, and here the rest is not UTF-8.
\<close>

lemma init_colon:
  "fst (init uuid4 (Some (Bytes [CHR '':'', CHR 0xFF])) 3 1 False now st) = Inr colon_cache"
  by (simp add: init_def colon_cache_def PREFIX_DELIMITER_def NAMESPACE_DELIMITER_def
      repr_bytes_def repr_quote_def repr_byte_def hex_digit_def int_tenth_3)

lemma miss_on_colon_identity:
  "fst (getitem json_literals 0 colon_cache (Str ''foo'') Map.empty) = Inl UnicodeDecodeError"
  by (simp add: getitem_def joint_key_def getitem_body_def client_get_def colon_cache_def
      physical_key_def PREFIX_DELIMITER_def NAMESPACE_DELIMITER_def EXPIRATION_STAT_KEY_def
      MISS_def int64_ok_def live_def)

text \<open>
  The value read back is the one the codec decodes, which need not be the one written:
  \<^verbatim>\<open>json\<close> writes a tuple as an array and reads an array as a list, so after
  \<^verbatim>\<open>d['foo'] = ()\<close> the read \<^verbatim>\<open>d['foo']\<close> returns \<^verbatim>\<open>[]\<close>.
\<close>

theorem tuple_read_back_as_list:
  "fst (init [] (Some (Str ''unique_key'')) 3 1 False 0 Map.empty) = Inr demo_cache
   \<and> dumps json_literals JTuple = Some ''[]''
   \<and> setitem json_literals 0 demo_cache (Str ''foo'') JTuple Map.empty = (Inr (), after_set_tuple)
   \<and> (1 / 2 :: rat) \<le> 0 + of_int (expiration demo_cache)
   \<and> fst (getitem json_literals (1 / 2) demo_cache (Str ''foo'') after_set_tuple) = Inr JList
   \<and> JList \<noteq> JTuple"
proof -
  have "dumps json_literals JTuple = Some ''[]''" by (simp add: json_literals_def)
  moreover have "(1 / 2 :: rat) \<le> 0 + of_int (expiration demo_cache)" by (simp add: demo_fields)
  moreover have "JList \<noteq> JTuple" by simp
  ultimately show ?thesis
    using init_demo [of "[]" 0 Map.empty] setitem_demo_tuple getitem_demo_tuple by (intro conjI)
qed

text \<open>
  C1. After \<^verbatim>\<open>d[k] = v\<close> at time \<open>t0\<close>, with \<open>v\<close> a value the codec encodes, and any
  reads in between, \<^verbatim>\<open>d[k]\<close> returns what the codec decodes from the encoding of \<open>v\<close>
  (\<open>v\<close> itself when the codec gives it back) at any time up to \<open>t0 + expiration\<close>, and
  raises \<^verbatim>\<open>KeyError(k)\<close> at any later time, so at any time later than \<open>expiration\<close> after
  the last write or read. A read refreshes the tracker only: the entry and its deadline
  stay as the write left them. Errors of the store propagate. The \<^verbatim>\<open>KeyError\<close> is stated
  for a key that is a \<^verbatim>\<open>str\<close> and an identity in which the first \<^verbatim>\<open>::\<close> of the physical
  key is the delimiter; the message is cut out of the physical key at that place.
\<close>

theorem set_then_get:
  assumes mk: "fst (init uuid4 uk msize expir cs t0' st0) = Inr self"
    and enc: "dumps J v = Some raw"
    and dec: "loads J raw = Some v'"
    and set: "setitem J t0 self (Str k) v st = (Inr (), st1)"
  shows "get_many J self gets st1 (physical_key self k)
           = Some \<lparr>payload = RString raw, deadline = Some (t0 + of_int (expiration self))\<rparr>
       \<and> (t1 \<le> t0 + of_int (expiration self)
            \<longrightarrow> (\<forall>m. fst (getitem J t1 self (Str k) (get_many J self gets st1)) \<noteq> Inl (ResponseError m))
            \<longrightarrow> fst (getitem J t1 self (Str k) (get_many J self gets st1)) = Inr v')
       \<and> (t0 + of_int (expiration self) < t1
            \<longrightarrow> plain_identity (unique_key self)
            \<longrightarrow> utf8_valid k
            \<longrightarrow> (\<forall>m. fst (getitem J t1 self (Str k) (get_many J self gets st1)) \<noteq> Inl (ResponseError m))
            \<longrightarrow> fst (getitem J t1 self (Str k) (get_many J self gets st1)) = Inl (KeyError (Str k)))"
proof -
  let ?p = "physical_key self k"
  let ?d = "t0 + of_int (expiration self)"
  let ?st = "get_many J self gets st1"
  have stored1: "st1 ?p = Some \<lparr>payload = RString raw, deadline = Some ?d\<rparr>"
    using setitem_stores [OF mk enc set] by simp
  have "?st ?p = st1 ?p"
    by (rule get_many_keeps_entry [where st = st1 and k = k, OF mk dec stored1])
  then have stored: "?st ?p = Some \<lparr>payload = RString raw, deadline = Some ?d\<rparr>"
    using stored1 by simp
  have hit: "t1 \<le> ?d \<Longrightarrow> fst (getitem J t1 self (Str k) ?st) = Inr v'
         \<or> (\<exists>m. fst (getitem J t1 self (Str k) ?st) = Inl (ResponseError m))"
    using getitem_hit [of ?st self k raw ?d t1 J v'] stored dec by blast
  have "?d < t1 \<Longrightarrow> live t1 ?st ?p = None"
    using stored by (simp add: live_def)
  then have miss: "?d < t1 \<Longrightarrow> plain_identity (unique_key self) \<Longrightarrow> utf8_valid k \<Longrightarrow>
         fst (getitem J t1 self (Str k) ?st) = Inl (KeyError (Str k))
         \<or> (\<exists>m. fst (getitem J t1 self (Str k) ?st) = Inl (ResponseError m))"
    using getitem_miss_key by blast
  show ?thesis using stored hit miss by blast
qed

theorem set_then_get_witness:
  "fst (init [] (Some (Str ''unique_key'')) 3 1 False 0 Map.empty) = Inr demo_cache
   \<and> dumps json_literals JTrue = Some ''true''
   \<and> loads json_literals ''true'' = Some JTrue
   \<and> setitem json_literals 0 demo_cache (Str ''foo'') JTrue Map.empty = (Inr (), after_set)
   \<and> get_many json_literals demo_cache [(1 / 4, Str ''foo'')] after_set = after_get
   \<and> after_get (physical_key demo_cache ''foo'')
       = Some \<lparr>payload = RString ''true'', deadline = Some (0 + of_int (expiration demo_cache))\<rparr>
   \<and> (1 / 2 :: rat) \<le> 0 + of_int (expiration demo_cache)
   \<and> (\<forall>m. fst (getitem json_literals (1 / 2) demo_cache (Str ''foo'') after_get) \<noteq> Inl (ResponseError m))
   \<and> fst (getitem json_literals (1 / 2) demo_cache (Str ''foo'') after_get) = Inr JTrue
   \<and> (0 + of_int (expiration demo_cache) :: rat) < 2
   \<and> plain_identity (unique_key demo_cache)
   \<and> utf8_valid ''foo''
   \<and> (\<forall>m. fst (getitem json_literals 2 demo_cache (Str ''foo'') after_get) \<noteq> Inl (ResponseError m))
   \<and> fst (getitem json_literals 2 demo_cache (Str ''foo'') after_get) = Inl (KeyError (Str ''foo''))"
proof -
  have h1: "fst (init [] (Some (Str ''unique_key'')) 3 1 False 0 Map.empty) = Inr demo_cache"
    by (rule init_demo)
  have h2: "dumps json_literals JTrue = Some ''true''"
    by (simp add: json_literals_def)
  have h3: "loads json_literals ''true'' = Some JTrue"
    by (simp add: json_literals_def)
  note h4 = setitem_demo
  note h5 = get_many_demo
  note T = set_then_get [OF h1 h2 h3 h4, where gets = "[(1 / 4, Str ''foo'')]", unfolded h5]
  have a1: "(1 / 2 :: rat) \<le> 0 + of_int (expiration demo_cache)"
    by (simp add: demo_fields)
  have a2: "\<forall>m. fst (getitem json_literals (1 / 2) demo_cache (Str ''foo'') after_get) \<noteq> Inl (ResponseError m)"
    by (simp add: getitem_after_get_hit)
  have b1: "(0 + of_int (expiration demo_cache) :: rat) < 2"
    by (simp add: demo_fields)
  have b2: "plain_identity (unique_key demo_cache)"
    by (simp add: plain_identity_def demo_fields PREFIX_DELIMITER_def NAMESPACE_DELIMITER_def)
  have b3: "utf8_valid ''foo''" by simp
  have b4: "\<forall>m. fst (getitem json_literals 2 demo_cache (Str ''foo'') after_get) \<noteq> Inl (ResponseError m)"
    by (simp add: getitem_after_get_miss)
  have c0: "after_get (physical_key demo_cache ''foo'')
       = Some \<lparr>payload = RString ''true'', deadline = Some (0 + of_int (expiration demo_cache))\<rparr>"
    using T [of 0] by (rule conjunct1)
  have c1: "fst (getitem json_literals (1 / 2) demo_cache (Str ''foo'') after_get) = Inr JTrue"
    using T [of "1 / 2"] a1 a2 by blast
  have c2: "fst (getitem json_literals 2 demo_cache (Str ''foo'') after_get) = Inl (KeyError (Str ''foo''))"
    using T [of 2] b1 b2 b3 b4 by blast
  show ?thesis
    using h1 h2 h3 h4 h5 c0 a1 a2 c1 b1 b2 b3 b4 c2 by (intro conjI)
qed

section \<open>Eviction\<close>

lemma zslice_prefix: "0 \<le> n \<Longrightarrow> zslice 0 n xs = take (nat n + 1) xs"
  by (auto simp: zslice_def Let_def nat_add_distrib)

lemma zranked_sorted: "sorted_wrt (\<lambda>x y. (snd x, fst x) \<le> (snd y, fst y)) (zranked z)"
  using sorted_sort_key [of "\<lambda>p. (snd p, fst p)" z] by (simp add: zranked_def sorted_map)

lemma ranked_take_drop:
  assumes "x \<in> set (take n (zranked z))" and "y \<in> set (drop n (zranked z))"
  shows "snd x \<le> snd y"
proof -
  have "sorted_wrt (\<lambda>x y. (snd x, fst x) \<le> (snd y, fst y)) (take n (zranked z) @ drop n (zranked z))"
    using zranked_sorted by simp
  then have "(snd x, fst x) \<le> (snd y, fst y)"
    using assms unfolding sorted_wrt_append by blast
  then show ?thesis by (auto simp: less_eq_prod_def)
qed

lemma pipeline_append_snd:
  "snd (redis_pipeline now (xs @ ys) st) = snd (redis_pipeline now ys (snd (redis_pipeline now xs st)))"
proof (induction xs arbitrary: st)
  case Nil
  show ?case by simp
next
  case (Cons c xs)
  show ?case
    by (simp only: append_Cons pipeline_Cons_snd Cons.IH)
qed

lemma pipeline_append_fst:
  "fst (redis_pipeline now (xs @ ys) st) = None \<longleftrightarrow>
     fst (redis_pipeline now xs st) = None
     \<and> fst (redis_pipeline now ys (snd (redis_pipeline now xs st))) = None"
proof (induction xs arbitrary: st)
  case Nil
  show ?case by simp
next
  case (Cons c xs)
  show ?case
    by (simp only: append_Cons pipeline_Cons_fst pipeline_Cons_snd Cons.IH) blast
qed

lemma exec_DEL_ok: "fst (exec now (DEL k) st) = Inr (Integer (if live now st k = None then 0 else 1))"
  by (simp split: option.splits)

lemma zrem_tracker:
  assumes inv: "tracker_at st a e zz"
    and alive: "\<forall>d. deadline e = Some d \<longrightarrow> \<not> d < now"
  shows "tracker_at (snd (exec now (ZREM a m) st)) a e (zrem_member m zz)"
    and "\<exists>r. fst (exec now (ZREM a m) st) = Inr r"
    and "x \<noteq> a \<Longrightarrow> snd (exec now (ZREM a m) st) x = st x"
proof -
  show "x \<noteq> a \<Longrightarrow> snd (exec now (ZREM a m) st) x = st x"
    using exec_frame [of "ZREM a m" x now st] by simp
  show "tracker_at (snd (exec now (ZREM a m) st)) a e (zrem_member m zz)"
    and "\<exists>r. fst (exec now (ZREM a m) st) = Inr r"
  proof -
    consider (gone) "zz = []" "st a = None" | (there) "st a = Some (e\<lparr>payload := RZSet zz\<rparr>)"
      using inv by (auto simp: tracker_at_def)
    then have "tracker_at (snd (exec now (ZREM a m) st)) a e (zrem_member m zz)
        \<and> (\<exists>r. fst (exec now (ZREM a m) st) = Inr r)"
    proof cases
      case gone
      then show ?thesis by (simp add: live_def tracker_at_def zrem_member_def)
    next
      case there
      then have lv: "live now st a = Some (e\<lparr>payload := RZSet zz\<rparr>)"
        using alive by (auto simp: live_def split: option.splits)
      show ?thesis
        by (simp add: lv tracker_at_def)
    qed
    then show "tracker_at (snd (exec now (ZREM a m) st)) a e (zrem_member m zz)"
      and "\<exists>r. fst (exec now (ZREM a m) st) = Inr r" by simp_all
  qed
qed

lemma evict_loop_effect:
  assumes "tracker_at st a e zz"
    and "\<forall>d. deadline e = Some d \<longrightarrow> \<not> d < now"
    and "\<forall>k\<in>set keys. k \<noteq> a"
  shows "tracker_at (snd (redis_pipeline now (evict_loop a keys) st)) a e
           (filter (\<lambda>p. fst p \<notin> set keys) zz)
       \<and> fst (redis_pipeline now (evict_loop a keys) st) = None
       \<and> (\<forall>k\<in>set keys. snd (redis_pipeline now (evict_loop a keys) st) k = None)
       \<and> (\<forall>x. x \<notin> set keys \<longrightarrow> x \<noteq> a \<longrightarrow>
             snd (redis_pipeline now (evict_loop a keys) st) x = st x)"
  using assms
proof (induction keys arbitrary: st zz)
  case Nil
  then show ?case by (simp add: evict_loop_def)
next
  case (Cons k ks)
  let ?s1 = "snd (exec now (DEL k) st)"
  let ?s2 = "snd (exec now (ZREM a k) ?s1)"
  let ?fin = "snd (redis_pipeline now (evict_loop a ks) ?s2)"
  have ka: "k \<noteq> a" using Cons.prems(3) by simp
  have unf: "evict_loop a (k # ks) = DEL k # ZREM a k # evict_loop a ks"
    by (simp add: evict_loop_def)
  have s1a: "?s1 a = st a" using exec_frame [of "DEL k" a now st] ka by (simp del: exec.simps)
  have s1k: "?s1 k = None" by (rule exec_DEL_gone)
  have s1x: "x \<noteq> k \<Longrightarrow> ?s1 x = st x" for x
    using exec_frame [of "DEL k" x now st] by (simp del: exec.simps)
  have inv1: "tracker_at ?s1 a e zz"
    using Cons.prems(1) s1a by (simp add: tracker_at_def del: exec.simps)
  note z = zrem_tracker [OF inv1 Cons.prems(2), where m = k]
  have inv2: "tracker_at ?s2 a e (zrem_member k zz)" by (rule z(1))
  have ih: "tracker_at ?fin a e (filter (\<lambda>p. fst p \<notin> set ks) (zrem_member k zz))
       \<and> fst (redis_pipeline now (evict_loop a ks) ?s2) = None
       \<and> (\<forall>k\<in>set ks. ?fin k = None)
       \<and> (\<forall>x. x \<notin> set ks \<longrightarrow> x \<noteq> a \<longrightarrow> ?fin x = ?s2 x)"
    by (rule Cons.IH [OF inv2 Cons.prems(2)]) (use Cons.prems(3) in simp)
  have fin: "snd (redis_pipeline now (evict_loop a (k # ks)) st) = ?fin"
    by (simp only: unf pipeline_Cons_snd)
  have flt: "filter (\<lambda>p. fst p \<notin> set ks) (zrem_member k zz) = filter (\<lambda>p. fst p \<notin> set (k # ks)) zz"
    by (auto simp: zrem_member_def intro: filter_cong)
  have ok: "fst (redis_pipeline now (evict_loop a (k # ks)) st) = None"
    using z(2) ih by (simp only: unf pipeline_Cons_fst exec_DEL_ok) (simp del: exec.simps)
  have s2k: "?s2 k = None" using z(3) [where x = k] ka s1k by (simp del: exec.simps)
  have s2x: "x \<noteq> k \<Longrightarrow> x \<noteq> a \<Longrightarrow> ?s2 x = st x" for x
    using z(3) [where x = x] s1x [of x] by (simp del: exec.simps)
  have gone: "\<forall>x\<in>set (k # ks). ?fin x = None"
  proof
    fix x assume "x \<in> set (k # ks)"
    then consider "x \<in> set ks" | "x = k" "x \<notin> set ks" by auto
    then show "?fin x = None"
    proof cases
      case 1 then show ?thesis using ih by blast
    next
      case 2 then show ?thesis using ih ka s2k by (auto simp del: exec.simps)
    qed
  qed
  have frame: "\<forall>x. x \<notin> set (k # ks) \<longrightarrow> x \<noteq> a \<longrightarrow> ?fin x = st x"
    using ih s2x by (auto simp del: exec.simps)
  show ?case
    using ih ok gone frame by (simp only: fin flt)
qed

lemma evict_commands_loop:
  "evict_commands self keys =
     evict_loop (access_key self) keys @ [HINCRBY (stat_key self) POP (int (length keys))]"
  by (simp add: evict_commands_def evict_loop_def)


lemma records_tracker_at: "tracker_at st a e zz \<Longrightarrow> records st a = zz"
  by (auto simp: tracker_at_def records_def)

lemma distinct_take_drop_members:
  assumes "distinct (map fst l)"
  shows "{p \<in> set l. fst p \<notin> fst ` set (take n l)} = set (drop n l)"
proof -
  have d: "distinct (map fst (take n l) @ map fst (drop n l))"
    using assms by (simp flip: map_append)
  have s: "set l = set (take n l) \<union> set (drop n l)"
    by (metis append_take_drop_id set_append)
  have disj: "fst ` set (take n l) \<inter> fst ` set (drop n l) = {}"
    using d by (simp only: distinct_append set_map)
  show ?thesis using s disj by auto
qed

lemma ranked_perm: "set (zranked z) = set z" "length (zranked z) = length z"
  "distinct (map fst (zranked z)) = distinct (map fst z)"
  by (simp_all add: zranked_def distinct_map)

lemma demo_ranked:
  "zranked demo_tracker =
     [(''lru-value:unique_key::a'', 1), (''lru-value:unique_key::b'', 2),
      (''lru-value:unique_key::c'', 3)]"
  by (simp add: zranked_def demo_tracker_def)

lemma demo_live_tracker:
  "live 4 full_store (access_key demo_cache) = Some \<lparr>payload = RZSet demo_tracker, deadline = Some 10\<rparr>"
  by (simp add: live_def full_store_def demo_fields)

lemma demo_size: "size_lru demo_cache 4 full_store = Inr 3"
  by (simp add: size_lru_def demo_live_tracker demo_tracker_def)

lemma demo_victims:
  "client_zrange 4 (access_key demo_cache) 0 (once_clean_size demo_cache) full_store
     = Inr [''lru-value:unique_key::a'']"
  by (simp add: client_zrange_def demo_live_tracker demo_ranked zslice_def demo_fields(6))

lemma demo_evict_pipeline:
  "fst (redis_pipeline 4 (evict_commands demo_cache [''lru-value:unique_key::a'']) full_store) = None"
  by (simp add: evict_commands_def full_store_def demo_tracker_def zrem_member_def run_defs)

lemma demo_evict: "fst (ensure_room 4 demo_cache full_store) = Inr False"
  by (simp add: ensure_room_def demo_size demo_victims demo_fields(2) raise_first_fst
      demo_evict_pipeline del: redis_pipeline.simps)

text \<open>
  C2. An eviction pass (the tracker at or over \<open>max_size\<close>) takes the first
  \<open>once_clean_size + 1\<close> records in the order of the access timestamps: the range
  \<^verbatim>\<open>zrange(0, once_clean_size)\<close> includes its end. \<open>once_clean_size\<close> is the float product
  \<^verbatim>\<open>max_size * 0.1\<close> truncated, which is \<open>max_size div 10\<close> for every \<open>max_size\<close> below
  \<open>2 ^ 51\<close>. No evicted record is newer than a record that stays; the evicted entries
  are deleted, the tracker keeps exactly the other records, the entries of the records
  that stay are left as they were, and \<^verbatim>\<open>POP\<close> grows by the number evicted.
\<close>

theorem eviction_takes_oldest:
  assumes mk: "fst (init uuid4 uk msize expir cs t0 st0) = Inr self"
    and pos: "0 < max_size self"
    and tr: "live now st (access_key self) = Some e"
    and zs: "payload e = RZSet z"
    and full: "max_size self \<le> int (length z)"
    and phys: "\<forall>m\<in>fst ` set z. \<exists>k. m = physical_key self k"
    and dist: "distinct (map fst z)"
    and run: "ensure_room now self st = (r, st')"
  shows "int_tenth (max_size self) = Inr (once_clean_size self)
       \<and> (max_size self < 2 ^ 51 \<longrightarrow> once_clean_size self = max_size self div 10)
       \<and> length (take (nat (once_clean_size self) + 1) (zranked z)) = nat (once_clean_size self) + 1
       \<and> (\<forall>x\<in>set (take (nat (once_clean_size self) + 1) (zranked z)).
            \<forall>y\<in>set (drop (nat (once_clean_size self) + 1) (zranked z)). snd x \<le> snd y)
       \<and> (\<forall>x\<in>set (take (nat (once_clean_size self) + 1) (zranked z)). st' (fst x) = None)
       \<and> set (records st' (access_key self)) = set (drop (nat (once_clean_size self) + 1) (zranked z))
       \<and> (\<forall>y\<in>set (drop (nat (once_clean_size self) + 1) (zranked z)). st' (fst y) = st (fst y))
       \<and> ((\<forall>m. r \<noteq> Inl (ResponseError m)) \<longrightarrow>
            r = Inr False
            \<and> counter self POP now st' = counter self POP now st + (once_clean_size self + 1))"
proof -
  let ?a = "access_key self"
  let ?s = "stat_key self"
  let ?N = "nat (once_clean_size self) + 1"
  let ?l = "zranked z"
  let ?keys = "map fst (take ?N ?l)"
  let ?inc = "HINCRBY ?s POP (int (length ?keys))"
  let ?s2 = "snd (redis_pipeline now (evict_loop ?a ?keys) st)"
  have tenth: "int_tenth (max_size self) = Inr (once_clean_size self)"
    using init_keys(3,5) [OF mk] by simp
  have ocs: "0 \<le> once_clean_size self" "once_clean_size self < max_size self"
    using int_tenth_bounds [OF pos tenth] by simp_all
  have small: "max_size self < 2 ^ 51 \<longrightarrow> once_clean_size self = max_size self div 10"
    using int_tenth_exact [of "max_size self"] pos tenth by simp
  have len: "length (take ?N ?l) = ?N"
    using ocs full by (simp add: ranked_perm)
  have order: "\<forall>x\<in>set (take ?N ?l). \<forall>y\<in>set (drop ?N ?l). snd x \<le> snd y"
    using ranked_take_drop by blast
  have sz: "size_lru self now st = Inr (int (length z))"
    by (simp add: size_lru_def tr zs)
  have zr: "client_zrange now ?a 0 (once_clean_size self) st = Inr ?keys"
    using ocs(1) by (simp add: client_zrange_def tr zs zslice_prefix take_map)
  have er: "ensure_room now self st = raise_first (redis_pipeline now (evict_commands self ?keys) st) False"
    using full by (simp add: ensure_room_def sz zr del: redis_pipeline.simps)
  have r: "r = fst (raise_first (redis_pipeline now (evict_commands self ?keys) st) False)"
    and st': "st' = snd (redis_pipeline now (evict_commands self ?keys) st)"
  proof -
    have rf: "raise_first (redis_pipeline now (evict_commands self ?keys) st) False = (r, st')"
      using run er by simp
    show "r = fst (raise_first (redis_pipeline now (evict_commands self ?keys) st) False)"
      by (simp only: rf fst_conv)
    have "st' = snd (raise_first (redis_pipeline now (evict_commands self ?keys) st) False)"
      by (simp only: rf snd_conv)
    then show "st' = snd (redis_pipeline now (evict_commands self ?keys) st)"
      by (simp only: raise_first_snd)
  qed
  have lv: "st ?a = Some e" "\<forall>d. deadline e = Some d \<longrightarrow> \<not> d < now"
    using live_SomeD [OF tr] by simp_all
  have inv0: "tracker_at st ?a e z"
    using lv(1) zs by (simp add: tracker_at_def)
  have members: "set ?keys \<subseteq> fst ` set z"
    using set_take_subset [of ?N ?l] by (auto simp: ranked_perm)
  have isphys: "\<exists>kk. k = physical_key self kk" if "k \<in> set ?keys" for k
  proof -
    from that members have "k \<in> fst ` set z" by (rule subsetD [rotated])
    with phys show ?thesis by (rule bspec)
  qed
  have ne: "\<forall>k\<in>set ?keys. k \<noteq> ?a"
  proof
    fix k assume "k \<in> set ?keys"
    then obtain kk where "k = physical_key self kk" using isphys by blast
    then show "k \<noteq> ?a" using key_families(1) [OF mk] by simp
  qed
  have nes: "?s \<notin> set ?keys"
  proof
    assume "?s \<in> set ?keys"
    then obtain kk where "?s = physical_key self kk" using isphys by blast
    then show False using key_families(2) [OF mk, of kk] by simp
  qed
  note loop = evict_loop_effect [OF inv0 lv(2) ne]
  note loop_tracker = loop [THEN conjunct1]
  note loop_gone = loop [THEN conjunct2, THEN conjunct2, THEN conjunct1]
  note loop_frame = loop [THEN conjunct2, THEN conjunct2, THEN conjunct2]
  have st'2: "st' = snd (exec now ?inc ?s2)"
    by (simp only: st' evict_commands_loop pipeline_append_snd pipeline_Cons_snd
        redis_pipeline.simps(1) snd_conv)
  have sa: "?s \<noteq> ?a" using key_families(3) [OF mk] by simp
  have gone: "\<forall>x\<in>set (take ?N ?l). st' (fst x) = None"
  proof
    fix x assume x: "x \<in> set (take ?N ?l)"
    then have k: "fst x \<in> set ?keys" by simp
    with nes have "fst x \<noteq> ?s" by metis
    then have "st' (fst x) = ?s2 (fst x)"
      using exec_frame [of ?inc "fst x" now ?s2] by (simp only: st'2 ckey.simps)
    moreover have "?s2 (fst x) = None" using loop_gone k by (rule bspec)
    ultimately show "st' (fst x) = None" by (simp only:)
  qed
  have "st' ?a = ?s2 ?a"
    using exec_frame [of ?inc ?a now ?s2] sa by (simp only: st'2 ckey.simps) simp
  then have "tracker_at st' ?a e (filter (\<lambda>p. fst p \<notin> set ?keys) z)"
    using loop_tracker by (simp only: tracker_at_def)
  then have "records st' ?a = filter (\<lambda>p. fst p \<notin> set ?keys) z"
    by (rule records_tracker_at)
  then have "set (records st' ?a) = {p \<in> set ?l. fst p \<notin> fst ` set (take ?N ?l)}"
    by (auto simp: ranked_perm)
  then have kept: "set (records st' ?a) = set (drop ?N ?l)"
    using distinct_take_drop_members [of ?l ?N] dist by (simp add: ranked_perm)
  have retained: "\<forall>y\<in>set (drop ?N ?l). st' (fst y) = st (fst y)"
  proof
    fix y assume y: "y \<in> set (drop ?N ?l)"
    then have "y \<in> set ?l" by (rule in_set_dropD)
    then have "fst y \<in> fst ` set z" by (simp add: ranked_perm(1))
    with phys obtain kk where kk: "fst y = physical_key self kk" by blast
    have na: "fst y \<noteq> ?a" using key_families(1) [OF mk, of kk] kk by simp
    have ns: "fst y \<noteq> ?s" using key_families(2) [OF mk, of kk] kk by simp
    have "y \<in> {p \<in> set ?l. fst p \<notin> fst ` set (take ?N ?l)}"
      using distinct_take_drop_members [of ?l ?N] dist y by (simp add: ranked_perm)
    then have nk: "fst y \<notin> set ?keys" by simp
    from ns have "st' (fst y) = ?s2 (fst y)"
      using exec_frame [of ?inc "fst y" now ?s2] by (simp only: st'2 ckey.simps)
    moreover have "?s2 (fst y) = st (fst y)" using loop_frame nk na by metis
    ultimately show "st' (fst y) = st (fst y)" by (simp only:)
  qed
  have pop: "r = Inr False \<and> counter self POP now st' = counter self POP now st + (once_clean_size self + 1)"
    if acc: "\<forall>m. r \<noteq> Inl (ResponseError m)"
  proof -
    have none: "fst (redis_pipeline now (evict_commands self ?keys) st) = None"
    proof (cases "fst (redis_pipeline now (evict_commands self ?keys) st)")
      case None then show ?thesis .
    next
      case (Some err)
      then obtain m where "err = ResponseError m" using pipeline_error by blast
      with Some r acc show ?thesis by (simp add: raise_first_fst)
    qed
    then have rF: "r = Inr False" using r by (simp add: raise_first_fst)
    have "\<exists>x. fst (exec now ?inc ?s2) = Inr x"
      using none by (simp only: evict_commands_loop pipeline_append_fst pipeline_Cons_fst) 
    then have "hfield now (snd (exec now ?inc ?s2)) ?s POP = hfield now ?s2 ?s POP + int (length ?keys)"
      using hfield_hincrby by blast
    moreover have "?s2 ?s = st ?s" using loop_frame nes sa by metis
    then have "hfield now ?s2 ?s POP = hfield now st ?s POP" by (rule hfield_frame)
    moreover have "int (length ?keys) = once_clean_size self + 1"
      using len ocs(1) by simp
    ultimately have "counter self POP now st' = counter self POP now st + (once_clean_size self + 1)"
      by (simp only: counter_hfield st'2)
    with rF show ?thesis by simp
  qed
  show ?thesis using tenth small len order gone kept retained pop by blast
qed

theorem eviction_takes_oldest_witness:
  "fst (init [] (Some (Str ''unique_key'')) 3 1 False 0 Map.empty) = Inr demo_cache
   \<and> 0 < max_size demo_cache
   \<and> live 4 full_store (access_key demo_cache)
       = Some \<lparr>payload = RZSet demo_tracker, deadline = Some 10\<rparr>
   \<and> max_size demo_cache \<le> int (length demo_tracker)
   \<and> fst ` set demo_tracker
       = {physical_key demo_cache ''b'', physical_key demo_cache ''a'', physical_key demo_cache ''c''}
   \<and> distinct (map fst demo_tracker)
   \<and> (\<forall>m. fst (ensure_room 4 demo_cache full_store) \<noteq> Inl (ResponseError m))
   \<and> max_size demo_cache < 2 ^ 51
   \<and> int_tenth (max_size demo_cache) = Inr (once_clean_size demo_cache)
   \<and> once_clean_size demo_cache = max_size demo_cache div 10
   \<and> take (nat (once_clean_size demo_cache) + 1) (zranked demo_tracker)
       = [(''lru-value:unique_key::a'', 1)]
   \<and> snd (ensure_room 4 demo_cache full_store) ''lru-value:unique_key::a'' = None
   \<and> snd (ensure_room 4 demo_cache full_store) ''lru-value:unique_key::b''
       = full_store ''lru-value:unique_key::b''
   \<and> snd (ensure_room 4 demo_cache full_store) ''lru-value:unique_key::c''
       = full_store ''lru-value:unique_key::c''
   \<and> set (records (snd (ensure_room 4 demo_cache full_store)) (access_key demo_cache))
       = {(''lru-value:unique_key::b'', 2), (''lru-value:unique_key::c'', 3)}
   \<and> fst (ensure_room 4 demo_cache full_store) = Inr False
   \<and> counter demo_cache POP 4 (snd (ensure_room 4 demo_cache full_store))
       = counter demo_cache POP 4 full_store + 1"
proof -
  let ?r = "fst (ensure_room 4 demo_cache full_store)"
  let ?st = "snd (ensure_room 4 demo_cache full_store)"
  have h1: "fst (init [] (Some (Str ''unique_key'')) 3 1 False 0 Map.empty) = Inr demo_cache"
    by (rule init_demo)
  have h2: "0 < max_size demo_cache" by (simp add: demo_fields)
  note h3 = demo_live_tracker
  have h4: "payload \<lparr>payload = RZSet demo_tracker, deadline = Some 10\<rparr> = RZSet demo_tracker"
    by simp
  have h5: "max_size demo_cache \<le> int (length demo_tracker)"
    by (simp add: demo_fields demo_tracker_def)
  have members: "fst ` set demo_tracker
      = {physical_key demo_cache ''b'', physical_key demo_cache ''a'', physical_key demo_cache ''c''}"
    by (simp add: demo_tracker_def physical_key_def demo_fields PREFIX_DELIMITER_def
        NAMESPACE_DELIMITER_def)
  have h6: "\<forall>m\<in>fst ` set demo_tracker. \<exists>k. m = physical_key demo_cache k"
  proof
    fix m assume "m \<in> fst ` set demo_tracker"
    then consider "m = physical_key demo_cache ''a''" | "m = physical_key demo_cache ''b''"
      | "m = physical_key demo_cache ''c''"
      unfolding members by blast
    then show "\<exists>k. m = physical_key demo_cache k" by cases blast+
  qed
  have h7: "distinct (map fst demo_tracker)" by (simp add: demo_tracker_def)
  have h8: "ensure_room 4 demo_cache full_store = (?r, ?st)" by simp
  have h9: "\<forall>m. ?r \<noteq> Inl (ResponseError m)" by (simp add: demo_evict)
  note T = eviction_takes_oldest [OF h1 h2 h3 h4 h5 h6 h7 h8]
  have tk: "take (nat (once_clean_size demo_cache) + 1) (zranked demo_tracker)
      = [(''lru-value:unique_key::a'', 1)]"
    by (simp add: demo_ranked demo_fields)
  have dr: "drop (nat (once_clean_size demo_cache) + 1) (zranked demo_tracker)
      = [(''lru-value:unique_key::b'', 2), (''lru-value:unique_key::c'', 3)]"
    by (simp add: demo_ranked demo_fields)
  have h10: "max_size demo_cache < 2 ^ 51" by (simp add: demo_fields)
  have c0: "int_tenth (max_size demo_cache) = Inr (once_clean_size demo_cache)"
    using T by (rule conjunct1)
  have "max_size demo_cache < 2 ^ 51 \<longrightarrow> once_clean_size demo_cache = max_size demo_cache div 10"
    using T by (elim conjE)
  with h10 have c1: "once_clean_size demo_cache = max_size demo_cache div 10"
    by (rule rev_mp)
  have c7: "\<forall>y\<in>set (drop (nat (once_clean_size demo_cache) + 1) (zranked demo_tracker)).
      ?st (fst y) = full_store (fst y)"
    using T by (elim conjE)
  then have c7': "?st ''lru-value:unique_key::b'' = full_store ''lru-value:unique_key::b''"
    "?st ''lru-value:unique_key::c'' = full_store ''lru-value:unique_key::c''"
    by (simp_all only: dr) simp_all
  have c4: "\<forall>x\<in>set (take (nat (once_clean_size demo_cache) + 1) (zranked demo_tracker)). ?st (fst x) = None"
    using T by (elim conjE)
  then have c4': "?st ''lru-value:unique_key::a'' = None"
    by (simp only: tk) simp
  have c5: "set (records ?st (access_key demo_cache))
      = set (drop (nat (once_clean_size demo_cache) + 1) (zranked demo_tracker))"
    using T by (elim conjE)
  then have c5': "set (records ?st (access_key demo_cache))
      = {(''lru-value:unique_key::b'', 2), (''lru-value:unique_key::c'', 3)}"
    by (simp only: dr) simp
  have c6: "?r = Inr False
      \<and> counter demo_cache POP 4 ?st = counter demo_cache POP 4 full_store + (once_clean_size demo_cache + 1)"
    using T h9 by blast
  then have c6': "?r = Inr False \<and> counter demo_cache POP 4 ?st = counter demo_cache POP 4 full_store + 1"
    by (simp add: demo_fields)
  show ?thesis
    using h1 h2 h3 h5 members h7 h9 h10 c0 c1 tk c4' c7' c5' c6' by (intro conjI) simp_all
qed

section \<open>Calls of a decorated function\<close>

lemma demo_key: "hash_args demo_hash [PyInt 3] [] = Some 28"
  by (simp add: hash_args_def demo_hash_def hash_int_def hash_modulus_def)

lemma demo_hex: "hex 28 = ''0x1c''"
  by (simp add: hex_def hex_digit_def)

lemmas call_defs =
  inner_def demo_key demo_hex getitem_def joint_key_def getitem_body_def client_get_def
  setitem_def setitem_body_def ensure_room_def size_lru_def run_defs

lemma demo_first_call:
  "inner json_literals demo_hash demo_memo 0 0 0 0 [PyInt 3] [] (Map.empty, 0)
     = (Inr JTrue, memo_after_first, 1)"
  by (simp add: memo_after_first_def demo_memo_def call_defs)

lemma demo_second_call:
  "fst (inner json_literals demo_hash demo_memo 0 0 (1 / 2) (1 / 2) [PyInt 3] [] (memo_after_first, 1))
     = Inr JTrue"
  by (simp add: memo_after_first_def demo_memo_def call_defs)

lemma demo_object_first:
  "inner json_literals demo_hash demo_memo_object 0 0 0 0 [PyInt 3] [] (Map.empty, 0)
     = (Inr JObject, object_after_first, 1)"
  by (simp add: object_after_first_def demo_memo_object_def call_defs)

lemma demo_object_second:
  "fst (inner json_literals demo_hash demo_memo_object 0 0 0 0 [PyInt 3] [] (object_after_first, 1))
     = Inr JObject"
  "snd (snd (inner json_literals demo_hash demo_memo_object 0 0 0 0 [PyInt 3] [] (object_after_first, 1)))
     = 2"
  by (simp_all add: object_after_first_def demo_memo_object_def call_defs)

text \<open>
  A function whose result the codec cannot encode is never cached: \<^verbatim>\<open>__setitem__\<close> counts a
  \<^verbatim>\<open>DUMPS_ERROR\<close> and writes nothing, so two calls in a row run the function twice.
\<close>

theorem unencodable_result_runs_twice:
  "func demo_memo_object [PyInt 3] [] = Inr JObject
   \<and> dumps json_literals JObject = None
   \<and> inner json_literals demo_hash demo_memo_object 0 0 0 0 [PyInt 3] [] (Map.empty, 0)
       = (Inr JObject, object_after_first, 1)
   \<and> fst (inner json_literals demo_hash demo_memo_object 0 0 0 0 [PyInt 3] [] (object_after_first, 1))
       = Inr JObject
   \<and> snd (snd (inner json_literals demo_hash demo_memo_object 0 0 0 0 [PyInt 3] []
         (object_after_first, 1)))
       = 2"
proof -
  have a: "func demo_memo_object [PyInt 3] [] = Inr JObject"
    by (simp add: demo_memo_object_def)
  have b: "dumps json_literals JObject = None"
    by (simp add: json_literals_def)
  show ?thesis using a b demo_object_first demo_object_second by (intro conjI)
qed

text \<open>
  C5. When a call misses, runs the wrapped function and stores its result (a value the
  codec encodes and decodes), a second call with the same arguments, made before the
  entry expires and computing the same key, does not run the function again: it has run
  once over both calls, and the second call returns the decoded entry. The key is the
  same whenever typed hashing is off.
\<close>

theorem second_call_served_from_cache:
  assumes mk: "fst (init uuid4 uk msize expir cs t0 st0) = Inr (lru_cache d)"
    and k1: "(if typed d then typed_hash_args R g1 g2 args kwargs else hash_args R args kwargs) = Some h"
    and k2: "(if typed d then typed_hash_args R g1' g2' args kwargs else hash_args R args kwargs) = Some h"
    and miss: "fst (getitem J t1 (lru_cache d) (Str (hex h)) st) = Inl (KeyError kk)"
    and res: "func d args kwargs = Inr v"
    and enc: "dumps J v = Some raw"
    and dec: "loads J raw = Some v'"
    and first: "inner J R d g1 g2 t1 t2 args kwargs (st, n) = (Inr v, st1, n1)"
    and soon: "t3 \<le> t2 + of_int (expiration (lru_cache d))"
    and second: "inner J R d g1' g2' t3 t4 args kwargs (st1, n1) = (r2, st2, n2)"
  shows "n1 = Suc n \<and> n2 = n1 \<and> ((\<forall>m. r2 \<noteq> Inl (ResponseError m)) \<longrightarrow> r2 = Inr v')"
proof -
  let ?c = "lru_cache d"
  let ?k = "Str (hex h)"
  obtain sg where g: "getitem J t1 ?c ?k st = (Inl (KeyError kk), sg)"
    using miss by (cases "getitem J t1 ?c ?k st") simp
  obtain rs ss where s: "setitem J t2 ?c ?k v sg = (rs, ss)"
    by (cases "setitem J t2 ?c ?k v sg")
  have one: "inner J R d g1 g2 t1 t2 args kwargs (st, n)
      = (case rs of Inl err \<Rightarrow> (Inl err, ss, Suc n) | Inr u \<Rightarrow> (Inr v, ss, Suc n))"
    unfolding inner_def by (simp only: k1 g res s option.case prod.case sum.case pyerr.case fst_conv snd_conv)
  have setok: "setitem J t2 ?c ?k v sg = (Inr (), st1)" and n1: "n1 = Suc n"
    using first one s by (cases rs; simp)+
  have stored: "st1 (physical_key ?c (hex h))
      = Some \<lparr>payload = RString raw, deadline = Some (t2 + of_int (expiration ?c))\<rparr>"
    using setitem_stores [OF mk enc setok] by simp
  obtain r3 s3 where g3: "getitem J t3 ?c ?k st1 = (r3, s3)"
    by (cases "getitem J t3 ?c ?k st1")
  have hit: "r3 = Inr v' \<or> (\<exists>m. r3 = Inl (ResponseError m))"
    using getitem_hit [of st1 ?c "hex h" raw "t2 + of_int (expiration ?c)" t3 J v'] stored soon dec g3
    by simp
  have two: "inner J R d g1' g2' t3 t4 args kwargs (st1, n1) = (r3, s3, n1)"
    using hit unfolding inner_def
    by (auto simp only: k2 g3 option.case prod.case sum.case pyerr.case fst_conv snd_conv)
  then have "r2 = r3" "n2 = n1" using second by simp_all
  then show ?thesis using n1 hit by auto
qed

theorem second_call_served_from_cache_witness:
  "fst (init [] (Some (Str ''unique_key'')) 3 1 False 0 Map.empty) = Inr (lru_cache demo_memo)
   \<and> (if typed demo_memo then typed_hash_args demo_hash 0 0 [PyInt 3] []
        else hash_args demo_hash [PyInt 3] []) = Some 28
   \<and> fst (getitem json_literals 0 (lru_cache demo_memo) (Str (hex 28)) Map.empty)
       = Inl (KeyError (Str ''0x1c''))
   \<and> func demo_memo [PyInt 3] [] = Inr JTrue
   \<and> dumps json_literals JTrue = Some ''true''
   \<and> loads json_literals ''true'' = Some JTrue
   \<and> inner json_literals demo_hash demo_memo 0 0 0 0 [PyInt 3] [] (Map.empty, 0)
       = (Inr JTrue, memo_after_first, Suc 0)
   \<and> (1 / 2 :: rat) \<le> 0 + of_int (expiration (lru_cache demo_memo))
   \<and> (\<forall>m. fst (inner json_literals demo_hash demo_memo 0 0 (1 / 2) (1 / 2) [PyInt 3] []
          (memo_after_first, Suc 0)) \<noteq> Inl (ResponseError m))
   \<and> snd (snd (inner json_literals demo_hash demo_memo 0 0 (1 / 2) (1 / 2) [PyInt 3] []
          (memo_after_first, Suc 0))) = Suc 0
   \<and> fst (inner json_literals demo_hash demo_memo 0 0 (1 / 2) (1 / 2) [PyInt 3] []
          (memo_after_first, Suc 0)) = Inr JTrue"
proof -
  let ?S = "inner json_literals demo_hash demo_memo 0 0 (1 / 2) (1 / 2) [PyInt 3] []
          (memo_after_first, Suc 0)"
  have c: "lru_cache demo_memo = demo_cache" by (simp add: demo_memo_def)
  have h1: "fst (init [] (Some (Str ''unique_key'')) 3 1 False 0 Map.empty) = Inr (lru_cache demo_memo)"
    by (simp only: c init_demo)
  have h2: "(if typed demo_memo then typed_hash_args demo_hash 0 0 [PyInt 3] []
        else hash_args demo_hash [PyInt 3] []) = Some 28"
    by (simp add: demo_memo_def demo_key)
  have h3: "fst (getitem json_literals 0 (lru_cache demo_memo) (Str (hex 28)) Map.empty)
       = Inl (KeyError (Str ''0x1c''))"
    by (simp add: c demo_hex getitem_def joint_key_def getitem_body_def client_get_def run_defs)
  have h4: "func demo_memo [PyInt 3] [] = Inr JTrue" by (simp add: demo_memo_def)
  have h5: "dumps json_literals JTrue = Some ''true''" by (simp add: json_literals_def)
  have h6: "loads json_literals ''true'' = Some JTrue" by (simp add: json_literals_def)
  have h7: "inner json_literals demo_hash demo_memo 0 0 0 0 [PyInt 3] [] (Map.empty, 0)
       = (Inr JTrue, memo_after_first, Suc 0)"
    using demo_first_call by simp
  have h8: "(1 / 2 :: rat) \<le> 0 + of_int (expiration (lru_cache demo_memo))"
    by (simp add: c demo_fields)
  have h9: "?S = (fst ?S, fst (snd ?S), snd (snd ?S))" by simp
  have ev: "fst ?S = Inr JTrue"
    using demo_second_call by simp
  have acc: "\<forall>m. fst ?S \<noteq> Inl (ResponseError m)" by (simp only: ev) simp
  note T = second_call_served_from_cache [OF h1 h2 h2 h3 h4 h5 h6 h7 h8 h9]
  have n2: "snd (snd ?S) = Suc 0" using T by blast
  have r2: "fst ?S = Inr JTrue" using T acc by blast
  show ?thesis
    using h1 h2 h3 h4 h5 h6 h7 h8 acc n2 r2 by (intro conjI)
qed

section \<open>The size of the tracker\<close>

lemma records_frame: "st1 a = st a \<Longrightarrow> records st1 a = records st a"
  by (simp add: records_def)

lemma records_upd_none: "records (st(a := None)) a = []"
  by (simp add: records_def)

lemma records_upd_some: "records (st(a \<mapsto> e)) a = (case payload e of RZSet z \<Rightarrow> z | _ \<Rightarrow> [])"
  by (simp add: records_def)

lemma records_live:
  "live now st a = Some e \<Longrightarrow> records st a = (case payload e of RZSet z \<Rightarrow> z | _ \<Rightarrow> [])"
  using live_SomeD [of now st a e] by (simp add: records_def)

lemma exec_DEL_snd: "snd (exec now (DEL k) st) = st(k := None)"
  by (simp split: option.splits)

lemma records_DEL_le: "length (records (snd (exec now (DEL k) st)) a) \<le> length (records st a)"
proof (cases "k = a")
  case True
  have "records (st(a := None)) a = []" by (rule records_upd_none)
  then show ?thesis by (simp only: exec_DEL_snd True list.size le0)
next
  case False
  then have "(st(k := None)) a = st a" by simp
  then have "records (st(k := None)) a = records st a" by (rule records_frame)
  then show ?thesis by (simp only: exec_DEL_snd le_refl)
qed

lemma records_ZREM_le: "length (records (snd (exec now (ZREM a m) st)) a) \<le> length (records st a)"
proof (cases "live now st a")
  case None
  then show ?thesis by (simp add: records_upd_none)
next
  case (Some e)
  note r = records_live [OF Some]
  show ?thesis
  proof (cases "payload e")
    case (RZSet z)
    then show ?thesis
      using Some r by (simp add: records_upd_none records_upd_some zrem_member_def)
  qed (use Some in simp_all)
qed

lemma records_EXPIRE_le: "length (records (snd (exec now (EXPIRE a secs) st)) a) \<le> length (records st a)"
proof (cases "live now st a")
  case None
  then show ?thesis by (simp add: records_upd_none)
next
  case (Some e)
  note r = records_live [OF Some]
  show ?thesis
    using Some r by (simp add: records_upd_none records_upd_some)
qed

lemma records_ZADD_le:
  "length (records (snd (exec now (ZADD a score m) st)) a)
     \<le> (if live now st a = None then 1 else length (records st a) + 1)"
proof (cases "live now st a")
  case None
  then show ?thesis by (simp add: records_upd_some)
next
  case (Some e)
  note r = records_live [OF Some]
  show ?thesis
  proof (cases "payload e")
    case (RZSet z)
    then show ?thesis
      using Some r by (simp add: records_upd_some zadd_member_def)
  qed (use Some in simp_all)
qed


lemma records_other_le:
  assumes "ckey c \<noteq> a"
  shows "length (records (snd (exec now c st)) a) \<le> length (records st a)"
proof -
  from assms have "snd (exec now c st) a = st a" by (rule exec_frame)
  then have "records (snd (exec now c st)) a = records st a" by (rule records_frame)
  then show ?thesis by (simp only: le_refl)
qed

lemma records_keeps_count:
  assumes "keeps_count a c"
  shows "length (records (snd (exec now c st)) a) \<le> length (records st a)"
proof (cases c)
  case (DEL k)
  then show ?thesis by (simp only: records_DEL_le)
next
  case (ZREM k m)
  show ?thesis
  proof (cases "k = a")
    case True
    with ZREM show ?thesis by (simp only: records_ZREM_le)
  next
    case False
    with ZREM have "ckey c \<noteq> a" by simp
    then show ?thesis by (rule records_other_le)
  qed
next
  case (EXPIRE k secs)
  show ?thesis
  proof (cases "k = a")
    case True
    with EXPIRE show ?thesis by (simp only: records_EXPIRE_le)
  next
    case False
    with EXPIRE have "ckey c \<noteq> a" by simp
    then show ?thesis by (rule records_other_le)
  qed
next
  case (GET k)
  with assms have "ckey c \<noteq> a" by simp
  then show ?thesis by (rule records_other_le)
next
  case (SETEX k secs v)
  with assms have "ckey c \<noteq> a" by simp
  then show ?thesis by (rule records_other_le)
next
  case (ZADD k score m)
  with assms have "ckey c \<noteq> a" by simp
  then show ?thesis by (rule records_other_le)
next
  case (ZRANGE k start stop)
  with assms have "ckey c \<noteq> a" by simp
  then show ?thesis by (rule records_other_le)
next
  case (ZCARD k)
  with assms have "ckey c \<noteq> a" by simp
  then show ?thesis by (rule records_other_le)
next
  case (HINCRBY k f n)
  with assms have "ckey c \<noteq> a" by simp
  then show ?thesis by (rule records_other_le)
next
  case (HGETALL k)
  with assms have "ckey c \<noteq> a" by simp
  then show ?thesis by (rule records_other_le)
next
  case (EXISTS k)
  with assms have "ckey c \<noteq> a" by simp
  then show ?thesis by (rule records_other_le)
qed

lemma records_pipeline_le:
  assumes "\<forall>c\<in>set cs. keeps_count a c"
  shows "length (records (snd (redis_pipeline now cs st)) a) \<le> length (records st a)"
  using assms
proof (induction cs arbitrary: st)
  case Nil
  show ?case by (simp only: redis_pipeline.simps snd_conv le_refl)
next
  case (Cons c cs)
  have kc: "keeps_count a c" and rest: "\<forall>c\<in>set cs. keeps_count a c"
    using Cons.prems by simp_all
  have step: "length (records (snd (exec now c st)) a) \<le> length (records st a)"
    using kc by (rule records_keeps_count)
  have "length (records (snd (redis_pipeline now cs (snd (exec now c st)))) a)
      \<le> length (records (snd (exec now c st)) a)"
    using rest by (rule Cons.IH)
  with step show ?case by (simp only: pipeline_Cons_snd)
qed

lemma evict_loop_keeps: "\<forall>c\<in>set (evict_loop a keys). keeps_count a c"
  by (induction keys) (simp_all add: evict_loop_def)

lemma evict_commands_keep:
  assumes "stat_key self \<noteq> access_key self"
  shows "\<forall>c\<in>set (evict_commands self keys). keeps_count (access_key self) c"
  using assms evict_loop_keeps [of "access_key self" keys]
  by (simp add: evict_commands_loop)

lemma zrem_strict:
  assumes lv: "live now st a = Some e" and zs: "payload e = RZSet z" and m: "m \<in> fst ` set z"
  shows "length (records (snd (exec now (ZREM a m) st)) a) < length z"
proof -
  obtain p where p: "p \<in> set z" "fst p = m" using m by auto
  then have less: "length (zrem_member m z) < length z"
    unfolding zrem_member_def by (intro length_filter_less [of p]) simp_all
  have nonempty: "0 < length z" using p(1) by (cases z) simp_all
  show ?thesis
    using lv zs less nonempty by (simp add: records_upd_none records_upd_some)
qed

lemma size_lru_cases:
  assumes "size_lru self now st = Inr n"
  shows "(live now st (access_key self) = None \<and> n = 0)
       \<or> (\<exists>e z. live now st (access_key self) = Some e \<and> payload e = RZSet z \<and> n = int (length z))"
proof (cases "live now st (access_key self)")
  case None
  with assms show ?thesis by (simp add: size_lru_def)
next
  case (Some e)
  with assms show ?thesis
    by (cases "payload e") (simp_all add: size_lru_def WRONGTYPE_def)
qed


lemma ensure_room_bound:
  assumes mk: "fst (init uuid4 uk msize expir cs t0 st0) = Inr self"
    and pos: "0 < max_size self"
    and inv: "int (length (records st (access_key self))) \<le> max_size self"
  shows "int (length (records (snd (ensure_room now self st)) (access_key self))) \<le> max_size self
       \<and> ((\<exists>room. fst (ensure_room now self st) = Inr room) \<longrightarrow>
            live now (snd (ensure_room now self st)) (access_key self) = None
            \<or> int (length (records (snd (ensure_room now self st)) (access_key self))) < max_size self)"
proof (cases "size_lru self now st")
  case (Inl err)
  then have "ensure_room now self st = (Inl err, st)" by (simp add: ensure_room_def)
  then show ?thesis using inv by simp
next
  case (Inr n)
  let ?a = "access_key self"
  note sz = size_lru_cases [OF Inr]
  show ?thesis
  proof (cases "n < max_size self")
    case True
    then have er: "ensure_room now self st = (Inr True, st)" using Inr by (simp add: ensure_room_def)
    have "live now st ?a = None \<or> int (length (records st ?a)) < max_size self"
    proof (cases "live now st ?a")
      case None then show ?thesis by simp
    next
      case (Some e)
      then obtain z where "payload e = RZSet z" "n = int (length z)" using sz by auto
      then show ?thesis using True records_live [OF Some] by simp
    qed
    then show ?thesis using inv by (simp only: er snd_conv fst_conv) simp
  next
    case False
    then have "n \<noteq> 0" using pos by simp
    then obtain e z where lv: "live now st ?a = Some e" and zs: "payload e = RZSet z"
      and n: "n = int (length z)" using sz by auto
    have rec: "records st ?a = z" using records_live [OF lv] zs by simp
    have lz: "int (length z) = max_size self" using inv rec n False by simp
    have ocs: "0 \<le> once_clean_size self"
      using int_tenth_bounds [OF pos] init_keys(3,5) [OF mk] by simp
    let ?keys = "take (nat (once_clean_size self) + 1) (map fst (zranked z))"
    have zr: "client_zrange now ?a 0 (once_clean_size self) st = Inr ?keys"
      using ocs by (simp add: client_zrange_def lv zs zslice_prefix)
    have er: "ensure_room now self st
        = raise_first (redis_pipeline now (evict_commands self ?keys) st) False"
      using False Inr by (simp add: ensure_room_def zr del: redis_pipeline.simps)
    have sa: "stat_key self \<noteq> ?a" using key_families(3) [OF mk] by simp
    obtain x xs where rk: "zranked z = x # xs"
      using lz pos ranked_perm(2) [of z] by (cases "zranked z") auto
    then have xin: "fst x \<in> fst ` set z"
      using ranked_perm(1) [of z] by (metis image_eqI list.set_intros(1))
    have keys: "?keys = fst x # take (nat (once_clean_size self)) (map fst xs)"
      by (simp add: rk)
    let ?rest = "take (nat (once_clean_size self)) (map fst xs)"
    let ?s1 = "snd (exec now (DEL (fst x)) st)"
    let ?s2 = "snd (exec now (ZREM ?a (fst x)) ?s1)"
    let ?tail = "evict_loop ?a ?rest @ [HINCRBY (stat_key self) POP (int (length ?keys))]"
    have cmds: "evict_commands self ?keys = DEL (fst x) # ZREM ?a (fst x) # ?tail"
      by (simp only: keys evict_commands_loop) (simp add: evict_loop_def)
    have fin: "snd (ensure_room now self st) = snd (redis_pipeline now ?tail ?s2)"
      by (simp only: er raise_first_snd cmds pipeline_Cons_snd)
    have s2: "length (records ?s2 ?a) < length z"
    proof (cases "fst x = ?a")
      case True
      have "records ?s1 ?a = []" by (simp only: exec_DEL_snd True records_upd_none)
      then have "length (records ?s2 ?a) \<le> 0"
        using records_ZREM_le [of now ?a "fst x" ?s1] by (simp del: exec.simps)
      moreover have "0 < length z" using lz pos by (cases z) simp_all
      ultimately show ?thesis by linarith
    next
      case False
      then have "?s1 ?a = st ?a" by (simp only: exec_DEL_snd) auto
      then have "live now ?s1 ?a = live now st ?a" by (rule live_cong)
      then have "live now ?s1 ?a = Some e" by (simp only: lv)
      then show ?thesis using zs xin by (rule zrem_strict)
    qed
    have tailkeep: "\<forall>c\<in>set ?tail. keeps_count ?a c"
      using evict_loop_keeps [of ?a ?rest] sa by (simp del: exec.simps)
    have "length (records (snd (redis_pipeline now ?tail ?s2)) ?a) \<le> length (records ?s2 ?a)"
      using tailkeep by (rule records_pipeline_le)
    then have "int (length (records (snd (ensure_room now self st)) ?a)) < max_size self"
      using s2 lz unfolding fin by linarith
    then show ?thesis by (simp del: exec.simps)
  qed
qed

lemma setitem_bound:
  assumes mk: "fst (init uuid4 uk msize expir cs t0 st0) = Inr self"
    and pos: "0 < max_size self"
    and inv: "int (length (records st (access_key self))) \<le> max_size self"
  shows "int (length (records (snd (setitem J t self (Str k) v st)) (access_key self))) \<le> max_size self"
proof -
  let ?a = "access_key self"
  let ?s = "stat_key self"
  let ?p = "physical_key self k"
  have sa: "?s \<noteq> ?a" using key_families(3) [OF mk] by simp
  have pa: "?p \<noteq> ?a" using key_families(1) [OF mk] by simp
  have unf: "setitem J t self (Str k) v st = setitem_body J t v self ?p st"
    by (simp only: setitem_def joint_key_def pykey.case)
  show ?thesis
  proof (cases "dumps J v")
    case None
    let ?cs = "[HINCRBY ?s DUMPS_ERROR 1, EXPIRE ?s EXPIRATION_STAT_KEY]"
    have fin0: "snd (setitem_body J t v self ?p st) = snd (redis_pipeline t ?cs st)"
      unfolding setitem_body_def by (simp only: None option.case raise_first_snd)
    have "length (records (snd (redis_pipeline t ?cs st)) ?a) \<le> length (records st ?a)"
      by (rule records_pipeline_le) (use sa in simp)
    then show ?thesis using inv unfolding unf fin0 by linarith
  next
    case (Some raw)
    obtain rr s1 where er: "ensure_room t self st = (rr, s1)" by (cases "ensure_room t self st")
    note b = ensure_room_bound [OF mk pos inv, of t]
    have b1: "int (length (records s1 ?a)) \<le> max_size self"
      using b er by simp
    show ?thesis
    proof (cases rr)
      case (Inl err)
      have fin1: "snd (setitem_body J t v self ?p st) = s1"
        unfolding setitem_body_def by (simp only: Some er Inl option.case prod.case sum.case snd_conv)
      show ?thesis using b1 unfolding unf fin1 .
    next
      case (Inr room)
      let ?rest = "[EXPIRE ?a (expiration self), HINCRBY ?s SET 1, EXPIRE ?s EXPIRATION_STAT_KEY]"
      let ?cs = "SETEX ?p (expiration self) raw # ZADD ?a t ?p # ?rest"
      let ?s2 = "snd (exec t (SETEX ?p (expiration self) raw) s1)"
      let ?s3 = "snd (exec t (ZADD ?a t ?p) ?s2)"
      have b2: "live t s1 ?a = None \<or> int (length (records s1 ?a)) < max_size self"
        using b er Inr by simp
      have fin: "snd (setitem_body J t v self ?p st) = snd (redis_pipeline t ?rest ?s3)"
        unfolding setitem_body_def
        by (simp only: Some er Inr option.case prod.case sum.case raise_first_snd pipeline_Cons_snd)
      have s2a: "?s2 ?a = s1 ?a" using exec_frame [of "SETEX ?p (expiration self) raw" ?a t s1] pa
        by (simp del: exec.simps)
      have l2: "live t ?s2 ?a = live t s1 ?a" using s2a by (rule live_cong)
      have r2: "records ?s2 ?a = records s1 ?a" using s2a by (rule records_frame)
      have "length (records ?s3 ?a) \<le> (if live t ?s2 ?a = None then 1 else length (records ?s2 ?a) + 1)"
        by (rule records_ZADD_le)
      then have s3: "int (length (records ?s3 ?a)) \<le> max_size self"
        using b2 pos unfolding l2 r2 by (auto split: if_splits)
      have "length (records (snd (redis_pipeline t ?rest ?s3)) ?a) \<le> length (records ?s3 ?a)"
        by (rule records_pipeline_le) (use sa in simp)
      then show ?thesis using s3 unfolding unf fin by linarith
    qed
  qed
qed

lemma set_many_bound:
  assumes mk: "fst (init uuid4 uk msize expir cs t0 st0) = Inr self"
    and pos: "0 < max_size self"
    and inv: "int (length (records st (access_key self))) \<le> max_size self"
  shows "int (length (records (set_many J self ops st) (access_key self))) \<le> max_size self"
  using inv
proof (induction ops arbitrary: st)
  case Nil
  then show ?case by simp
next
  case (Cons op ops)
  have "int (length (records (snd (setitem J (fst op) self (Str (fst (snd op))) (snd (snd op)) st))
      (access_key self))) \<le> max_size self"
    using mk pos Cons.prems by (rule setitem_bound)
  then show ?case by (simp only: set_many.simps Cons.IH)
qed

lemma size_lru_records:
  assumes "size_lru self now st = Inr n"
  shows "n \<le> int (length (records st (access_key self)))"
proof -
  from size_lru_cases [OF assms] show ?thesis
  proof (elim disjE exE conjE)
    fix e z
    assume lv: "live now st (access_key self) = Some e" and "payload e = RZSet z" "n = int (length z)"
    then show ?thesis using records_live [OF lv] by simp
  qed simp
qed

lemma physical_key_inj: "physical_key self k = physical_key self k' \<longleftrightarrow> k = k'"
  by (simp add: physical_key_def)

lemma setitem_ok_unfold:
  assumes enc: "dumps J v = Some raw"
    and ok: "setitem J t self (Str k) v st = (Inr (), st')"
  shows "\<exists>room s1. ensure_room t self st = (Inr room, s1)
          \<and> redis_pipeline t
               [SETEX (physical_key self k) (expiration self) raw,
                ZADD (access_key self) t (physical_key self k),
                EXPIRE (access_key self) (expiration self),
                HINCRBY (stat_key self) SET 1,
                EXPIRE (stat_key self) EXPIRATION_STAT_KEY] s1 = (None, st')"
proof -
  let ?p = "physical_key self k"
  obtain rr s1 where er: "ensure_room t self st = (rr, s1)" by (cases "ensure_room t self st")
  have body: "setitem_body J t v self ?p st = (Inr (), st')"
    using ok by (simp only: setitem_def joint_key_def pykey.case)
  show ?thesis
  proof (cases rr)
    case (Inl err)
    have "setitem_body J t v self ?p st = (Inl err, s1)"
      unfolding setitem_body_def by (simp only: enc er Inl option.case prod.case sum.case)
    with body show ?thesis by simp
  next
    case (Inr room)
    have "setitem_body J t v self ?p st
        = raise_first (redis_pipeline t
               [SETEX ?p (expiration self) raw,
                ZADD (access_key self) t ?p,
                EXPIRE (access_key self) (expiration self),
                HINCRBY (stat_key self) SET 1,
                EXPIRE (stat_key self) EXPIRATION_STAT_KEY] s1) ()"
      unfolding setitem_body_def by (simp only: enc er Inr option.case prod.case sum.case)
    with body have "redis_pipeline t
               [SETEX ?p (expiration self) raw,
                ZADD (access_key self) t ?p,
                EXPIRE (access_key self) (expiration self),
                HINCRBY (stat_key self) SET 1,
                EXPIRE (stat_key self) EXPIRATION_STAT_KEY] s1 = (None, st')"
      by (simp only: raise_first_Inr)
    with er Inr show ?thesis by blast
  qed
qed


lemma zadd_member_new: "m \<notin> fst ` set z \<Longrightarrow> zadd_member m score z = (m, score) # z"
  by (auto simp: zadd_member_def filter_id_conv)

lemma zadd_expire:
  assumes E: "0 < secs"
    and lv: "(live t s a = None \<and> z = []) \<or> (\<exists>e. live t s a = Some e \<and> payload e = RZSet z)"
    and new: "m \<notin> fst ` set z"
  shows "\<exists>e'. snd (exec t (EXPIRE a secs) (snd (exec t (ZADD a t m) s))) a = Some e'
          \<and> deadline e' = Some (t + of_int secs) \<and> payload e' = RZSet ((m, t) # z)"
proof -
  let ?s2 = "snd (exec t (ZADD a t m) s)"
  have "\<exists>e2. live t ?s2 a = Some e2 \<and> payload e2 = RZSet ((m, t) # z)"
    using lv
  proof (elim disjE conjE exE)
    assume "live t s a = None" "z = []"
    then show ?thesis by (simp add: live_upd_same)
  next
    fix e assume e: "live t s a = Some e" "payload e = RZSet z"
    note d = live_SomeD [OF e(1)]
    have "live t (s(a \<mapsto> e\<lparr>payload := RZSet (zadd_member m t z)\<rparr>)) a
        = Some (e\<lparr>payload := RZSet (zadd_member m t z)\<rparr>)"
      using d by (auto simp: live_upd_same)
    then show ?thesis using e new by (simp add: zadd_member_new)
  qed
  then obtain e2 where e2: "live t ?s2 a = Some e2" "payload e2 = RZSet ((m, t) # z)" by blast
  have "snd (exec t (EXPIRE a secs) ?s2) a = Some (e2\<lparr>deadline := Some (t + of_int secs)\<rparr>)"
    using e2(1) E by (simp del: exec.simps(4) add: exec.simps(10))
  then show ?thesis using e2(2) by simp
qed


lemma tracking_live:
  assumes tr: "tracking self st ks prev"
    and pace: "case prev of None \<Rightarrow> True | Some t0 \<Rightarrow> t \<le> t0 + of_int (expiration self)"
  shows "(live t st (access_key self) = None \<and> ks = [])
       \<or> (\<exists>e z. live t st (access_key self) = Some e \<and> payload e = RZSet z
              \<and> map fst z = map (physical_key self) (rev ks))"
proof (cases prev)
  case None
  with tr show ?thesis by (simp add: tracking_def live_def)
next
  case (Some t0)
  with tr obtain e where e: "st (access_key self) = Some e"
    "deadline e = Some (t0 + of_int (expiration self))"
    by (auto simp: tracking_def split: option.splits)
  from tr Some e obtain z where z: "payload e = RZSet z" "map fst z = map (physical_key self) (rev ks)"
    by (cases "payload e") (auto simp: tracking_def)
  have "live t st (access_key self) = Some e"
    using e pace Some by (simp add: live_def)
  with z show ?thesis by blast
qed

lemma tracking_size:
  assumes tr: "tracking self st ks prev"
    and pace: "case prev of None \<Rightarrow> True | Some t0 \<Rightarrow> t \<le> t0 + of_int (expiration self)"
  shows "size_lru self t st = Inr (int (length ks))"
proof -
  from tracking_live [OF tr pace] show ?thesis
  proof (elim disjE conjE exE)
    assume "live t st (access_key self) = None" "ks = []"
    then show ?thesis by (simp add: size_lru_def)
  next
    fix e z
    assume "live t st (access_key self) = Some e" "payload e = RZSet z"
      and m: "map fst z = map (physical_key self) (rev ks)"
    moreover have "length z = length ks" using arg_cong [OF m, of length] by simp
    ultimately show ?thesis by (simp add: size_lru_def)
  qed
qed

lemma grow:
  assumes mk: "fst (init uuid4 uk msize expir cs t0' st0) = Inr self"
    and tr: "tracking self st ks prev"
    and pace: "case prev of None \<Rightarrow> True | Some t0 \<Rightarrow> t \<le> t0 + of_int (expiration self)"
    and new: "k \<notin> set ks"
    and room: "int (length ks) < max_size self"
    and enc: "dumps J v = Some raw"
    and ok: "setitem J t self (Str k) v st = (Inr (), st')"
  shows "tracking self st' (ks @ [k]) (Some t)"
proof -
  let ?a = "access_key self"
  let ?s = "stat_key self"
  let ?p = "physical_key self k"
  let ?E = "expiration self"
  let ?tail = "[HINCRBY ?s SET 1, EXPIRE ?s EXPIRATION_STAT_KEY]"
  have sa: "?s \<noteq> ?a" using key_families(3) [OF mk] by simp
  have pa: "?p \<noteq> ?a" using key_families(1) [OF mk] by simp
  have sz: "size_lru self t st = Inr (int (length ks))" using tr pace by (rule tracking_size)
  have er: "ensure_room t self st = (Inr True, st)"
    using room by (simp add: ensure_room_def sz)
  obtain room' s1 where u: "ensure_room t self st = (Inr room', s1)"
    "redis_pipeline t
       [SETEX ?p ?E raw, ZADD ?a t ?p, EXPIRE ?a ?E, HINCRBY ?s SET 1, EXPIRE ?s EXPIRATION_STAT_KEY]
       s1 = (None, st')"
    using setitem_ok_unfold [OF enc ok] by blast
  have s1: "s1 = st" using u(1) er by simp
  let ?cs = "[SETEX ?p ?E raw, ZADD ?a t ?p, EXPIRE ?a ?E, HINCRBY ?s SET 1, EXPIRE ?s EXPIRATION_STAT_KEY]"
  have f: "fst (redis_pipeline t ?cs st) = None" and sn: "st' = snd (redis_pipeline t ?cs st)"
    using u(2) unfolding s1 by (simp_all only: fst_conv snd_conv)
  have "\<exists>r. fst (exec t (SETEX ?p ?E raw) st) = Inr r"
    using f by (simp only: pipeline_Cons_fst)
  then have E: "0 < ?E" by (cases "?E \<le> 0") simp_all
  let ?s1 = "snd (exec t (SETEX ?p ?E raw) st)"
  let ?s2 = "snd (exec t (ZADD ?a t ?p) ?s1)"
  let ?s3 = "snd (exec t (EXPIRE ?a ?E) ?s2)"
  have st': "st' = snd (redis_pipeline t ?tail ?s3)"
    unfolding sn by (simp only: pipeline_Cons_snd)
  have "snd (redis_pipeline t ?tail ?s3) ?a = ?s3 ?a"
    by (rule pipeline_frame) (use sa in simp)
  then have fin: "st' ?a = ?s3 ?a" unfolding st' .
  have "?s1 ?a = st ?a" using exec_frame [of "SETEX ?p ?E raw" ?a t st] pa by (simp del: exec.simps)
  then have l1: "live t ?s1 ?a = live t st ?a" by (rule live_cong)
  from tracking_live [OF tr pace]
  obtain z where z: "(live t ?s1 ?a = None \<and> z = []) \<or> (\<exists>e. live t ?s1 ?a = Some e \<and> payload e = RZSet z)"
    and m: "map fst z = map (physical_key self) (rev ks)"
    unfolding l1 by (elim disjE conjE exE) auto
  have "?p \<notin> set (map (physical_key self) (rev ks))"
    using new by (auto simp: physical_key_inj)
  then have pnew: "?p \<notin> fst ` set z" using m by (metis set_map)
  from zadd_expire [OF E z pnew]
  obtain e' where e': "?s3 ?a = Some e'" "deadline e' = Some (t + of_int ?E)"
    "payload e' = RZSet ((?p, t) # z)" by blast
  show ?thesis
    using e' m unfolding tracking_def fin by simp
qed

lemma sets_ok_append:
  "sets_ok J self (xs @ ys) st \<longleftrightarrow> sets_ok J self xs st \<and> sets_ok J self ys (set_many J self xs st)"
  by (induction xs arbitrary: st) simp_all

lemma set_many_append:
  "set_many J self (xs @ ys) st = set_many J self ys (set_many J self xs st)"
  by (induction xs arbitrary: st) simp_all

lemma paced_append:
  "paced ttl prev (xs @ ys) \<longleftrightarrow>
     paced ttl prev xs \<and> paced ttl (if xs = [] then prev else Some (last xs)) ys"
  by (induction xs arbitrary: prev) auto

lemma grow_many:
  assumes mk: "fst (init uuid4 uk msize expir cs t0' st0) = Inr self"
    and tr: "tracking self st ks prev"
    and pace: "paced (of_int (expiration self)) prev (map fst ops)"
    and dist: "distinct (ks @ map (\<lambda>op. fst (snd op)) ops)"
    and room: "int (length ks + length ops) \<le> max_size self"
    and ok: "sets_ok J self ops st"
  shows "tracking self (set_many J self ops st) (ks @ map (\<lambda>op. fst (snd op)) ops)
           (if ops = [] then prev else Some (fst (last ops)))"
  using tr pace dist room ok
proof (induction ops arbitrary: st ks prev)
  case Nil
  then show ?case by simp
next
  case (Cons op ops)
  let ?t = "fst op"
  let ?k = "fst (snd op)"
  let ?v = "snd (snd op)"
  let ?st' = "snd (setitem J ?t self (Str ?k) ?v st)"
  from Cons.prems(5) obtain raw where enc: "dumps J ?v = Some raw" by auto
  from Cons.prems(5) have okf: "fst (setitem J ?t self (Str ?k) ?v st) = Inr ()"
    and rest: "sets_ok J self ops ?st'" by simp_all
  have ok1: "setitem J ?t self (Str ?k) ?v st = (Inr (), ?st')"
    using okf by (metis prod.collapse)
  have p1: "case prev of None \<Rightarrow> True | Some t0 \<Rightarrow> ?t \<le> t0 + of_int (expiration self)"
    and p2: "paced (of_int (expiration self)) (Some ?t) (map fst ops)"
    using Cons.prems(2) by simp_all
  have new: "?k \<notin> set ks" using Cons.prems(3) by auto
  have rm: "int (length ks) < max_size self" using Cons.prems(4) by simp
  have tr1: "tracking self ?st' (ks @ [?k]) (Some ?t)"
    using mk Cons.prems(1) p1 new rm enc ok1 by (rule grow)
  have d2: "distinct ((ks @ [?k]) @ map (\<lambda>op. fst (snd op)) ops)"
    using Cons.prems(3) by auto
  have r2: "int (length (ks @ [?k]) + length ops) \<le> max_size self"
    using Cons.prems(4) by simp
  have "tracking self (set_many J self ops ?st') ((ks @ [?k]) @ map (\<lambda>op. fst (snd op)) ops)
      (if ops = [] then Some ?t else Some (fst (last ops)))"
    using tr1 p2 d2 r2 rest by (rule Cons.IH)
  then show ?case by (cases "ops = []") simp_all
qed

lemma ensure_room_over:
  assumes sz: "size_lru self t st = Inr n" and over: "\<not> n < max_size self"
    and ok: "fst (ensure_room t self st) = Inr room"
  shows "room = False"
proof (cases "client_zrange t (access_key self) 0 (once_clean_size self) st")
  case (Inl err)
  then have "ensure_room t self st = (Inl err, st)" using sz over by (simp add: ensure_room_def)
  with ok show ?thesis by simp
next
  case (Inr keys)
  then have "ensure_room t self st
      = raise_first (redis_pipeline t (evict_commands self keys) st) False"
    using sz over by (simp add: ensure_room_def del: redis_pipeline.simps)
  with ok show ?thesis
    by (cases "fst (redis_pipeline t (evict_commands self keys) st)") (simp_all add: raise_first_fst)
qed


lemma ensure_room_shrinks:
  assumes mk: "fst (init uuid4 uk msize expir cs t0 st0) = Inr self"
    and pos: "0 < max_size self"
    and sz: "size_lru self now st = Inr n"
    and over: "\<not> n < max_size self"
  shows "length (records (snd (ensure_room now self st)) (access_key self))
           < length (records st (access_key self))"
proof -
  let ?a = "access_key self"
  note szc = size_lru_cases [OF sz]
  have "n \<noteq> 0" using pos over by simp
  then obtain e z where lv: "live now st ?a = Some e" and zs: "payload e = RZSet z"
    and n: "n = int (length z)" using szc by auto
  have rec: "records st ?a = z" using records_live [OF lv] zs by simp
  have lz: "0 < length z" using n over pos by (cases z) simp_all
  have tenth: "int_tenth (max_size self) = Inr (once_clean_size self)"
    using init_keys(3,5) [OF mk] by simp
  have ocs: "0 \<le> once_clean_size self"
    using int_tenth_bounds [OF pos tenth] by simp
  let ?keys = "take (nat (once_clean_size self) + 1) (map fst (zranked z))"
  have zr: "client_zrange now ?a 0 (once_clean_size self) st = Inr ?keys"
    using ocs by (simp add: client_zrange_def lv zs zslice_prefix)
  have er: "ensure_room now self st
      = raise_first (redis_pipeline now (evict_commands self ?keys) st) False"
    using over sz by (simp add: ensure_room_def zr del: redis_pipeline.simps)
  have sa: "stat_key self \<noteq> ?a" using key_families(3) [OF mk] by simp
  obtain x xs where rk: "zranked z = x # xs"
    using lz ranked_perm(2) [of z] by (cases "zranked z") auto
  then have xin: "fst x \<in> fst ` set z"
    using ranked_perm(1) [of z] by (metis image_eqI list.set_intros(1))
  have keys: "?keys = fst x # take (nat (once_clean_size self)) (map fst xs)"
    by (simp add: rk)
  let ?rest = "take (nat (once_clean_size self)) (map fst xs)"
  let ?s1 = "snd (exec now (DEL (fst x)) st)"
  let ?s2 = "snd (exec now (ZREM ?a (fst x)) ?s1)"
  let ?tail = "evict_loop ?a ?rest @ [HINCRBY (stat_key self) POP (int (length ?keys))]"
  have cmds: "evict_commands self ?keys = DEL (fst x) # ZREM ?a (fst x) # ?tail"
    by (simp only: keys evict_commands_loop) (simp add: evict_loop_def)
  have fin: "snd (ensure_room now self st) = snd (redis_pipeline now ?tail ?s2)"
    by (simp only: er raise_first_snd cmds pipeline_Cons_snd)
  have s2: "length (records ?s2 ?a) < length z"
  proof (cases "fst x = ?a")
    case True
    have "records ?s1 ?a = []" by (simp only: exec_DEL_snd True records_upd_none)
    then have "length (records ?s2 ?a) \<le> 0"
      using records_ZREM_le [of now ?a "fst x" ?s1] by (simp del: exec.simps)
    then show ?thesis using lz by linarith
  next
    case False
    then have "?s1 ?a = st ?a" by (simp only: exec_DEL_snd) auto
    then have "live now ?s1 ?a = live now st ?a" by (rule live_cong)
    then have "live now ?s1 ?a = Some e" by (simp only: lv)
    then show ?thesis using zs xin by (rule zrem_strict)
  qed
  have tailkeep: "\<forall>c\<in>set ?tail. keeps_count ?a c"
    using evict_loop_keeps [of ?a ?rest] sa by (simp del: exec.simps)
  have "length (records (snd (redis_pipeline now ?tail ?s2)) ?a) \<le> length (records ?s2 ?a)"
    using tailkeep by (rule records_pipeline_le)
  then show ?thesis using s2 unfolding fin rec by linarith
qed

lemma tracking_records:
  assumes "tracking self st ks prev"
  shows "length (records st (access_key self)) = length ks"
proof (cases prev)
  case None
  with assms show ?thesis by (simp add: tracking_def records_def)
next
  case (Some t)
  with assms obtain e z where "st (access_key self) = Some e" "payload e = RZSet z"
    "map fst z = map (physical_key self) (rev ks)"
    by (auto simp: tracking_def split: option.splits rvalue.splits)
  then have "records st (access_key self) = z" "length z = length ks"
    using length_map [of fst z] by (simp_all add: records_def)
  then show ?thesis by simp
qed

lemma small_fields:
  "unique_key small_cache = ''k''"
  "max_size small_cache = 1"
  "expiration small_cache = 1"
  "access_key small_cache = ''lru-access:b'' @ [CHR 0x27] @ ''k'' @ [CHR 0x27]"
  "stat_key small_cache = ''lru-stat:b'' @ [CHR 0x27] @ ''k'' @ [CHR 0x27]"
  "once_clean_size small_cache = 0"
  by (simp_all add: small_cache_def)

lemmas small_defs =
  small_fields physical_key_def PREFIX_DELIMITER_def NAMESPACE_DELIMITER_def
  EXPIRATION_STAT_KEY_def HIT_def MISS_def POP_def SET_def DEL_STAT_def DUMPS_ERROR_def
  LOADS_ERROR_def json_literals_def int64_ok_def live_def raise_first_def

lemma init_small: "fst (init uuid4 (Some (Str ''k'')) 1 1 False now st) = Inr small_cache"
  by (simp add: init_def small_cache_def PREFIX_DELIMITER_def NAMESPACE_DELIMITER_def
      repr_bytes_def repr_quote_def repr_byte_def int_tenth_1)

lemma ensure_room_small_empty: "ensure_room 0 small_cache Map.empty = (Inr True, Map.empty)"
  by (simp add: ensure_room_def size_lru_def small_defs)

lemma setitem_small_a:
  "setitem json_literals 0 small_cache (Str ''a'') JTrue Map.empty = (Inr (), after_a)"
  by (simp add: setitem_def joint_key_def setitem_body_def ensure_room_small_empty small_defs
      after_a_def)

lemma ensure_room_small_late: "ensure_room 5 small_cache after_a = (Inr True, after_a)"
  unfolding ensure_room_def size_lru_def
  by (simp add: small_defs after_a_def)

lemma setitem_small_late:
  "fst (setitem json_literals 5 small_cache (Str ''b'') JFalse after_a) = Inr ()"
  unfolding setitem_def joint_key_def pykey.case setitem_body_def ensure_room_small_late
  by (simp add: small_defs after_a_def)

lemma counter_small_late:
  "counter small_cache POP 5 (snd (setitem json_literals 5 small_cache (Str ''b'') JFalse after_a)) = 0"
  unfolding setitem_def joint_key_def pykey.case setitem_body_def ensure_room_small_late
  by (simp add: small_defs after_a_def counter_def report_usage_def)

lemma size_small_soon: "size_lru small_cache (1 / 2) after_a = Inr 1"
  by (simp add: size_lru_def small_defs after_a_def)

lemma victims_small_soon:
  "client_zrange (1 / 2) (access_key small_cache) 0 (once_clean_size small_cache) after_a
     = Inr [''lru-value:k::a'']"
  by (simp add: client_zrange_def small_defs after_a_def zranked_def zslice_def)

lemma ensure_room_small_soon:
  "ensure_room (1 / 2) small_cache after_a = (Inr False, after_evict_a)"
  unfolding ensure_room_def size_small_soon victims_small_soon
  by (simp add: evict_commands_def after_a_def after_evict_a_def zrem_member_def small_defs
      fun_upd_twist)

lemma setitem_small_soon:
  "fst (setitem json_literals (1 / 2) small_cache (Str ''b'') JFalse after_a) = Inr ()"
  unfolding setitem_def joint_key_def pykey.case setitem_body_def ensure_room_small_soon
  by (simp add: small_defs after_evict_a_def)


text \<open>
  Two distinct keys go into the cache of one entry, the second five seconds after the
  first: the tracker has expired with the first entry, the write finds room and no
  eviction pass runs.
\<close>

theorem late_insert_evicts_nothing:
  "fst (init [] (Some (Str ''k'')) 1 1 False 0 Map.empty) = Inr small_cache
   \<and> max_size small_cache = 1
   \<and> setitem json_literals 0 small_cache (Str ''a'') JTrue Map.empty = (Inr (), after_a)
   \<and> ensure_room 5 small_cache after_a = (Inr True, after_a)
   \<and> fst (setitem json_literals 5 small_cache (Str ''b'') JFalse after_a) = Inr ()
   \<and> counter small_cache POP 5
         (snd (setitem json_literals 5 small_cache (Str ''b'') JFalse after_a)) = 0"
  using init_small [of "[]" 0 Map.empty] small_fields(2) setitem_small_a ensure_room_small_late
    setitem_small_late counter_small_late
  by (intro conjI)

text \<open>
  C3. On a cache with a positive \<open>max_size\<close> whose tracker holds at most \<open>max_size\<close>
  records, the tracker holds at most \<open>max_size\<close> records after every run of writes, and
  \<^verbatim>\<open>size\<close> reports no more. When \<open>max_size + 1\<close> distinct keys are written to a cache
  with no tracker yet, each write succeeding and no later than \<open>expiration\<close> after the
  one before it, the tracker is full before the last write, and the last write runs an
  eviction pass, which leaves fewer than \<open>max_size\<close> records.
\<close>

theorem tracker_stays_bounded:
  assumes mk: "fst (init uuid4 uk msize expir cs t0 st0) = Inr self"
    and pos: "0 < max_size self"
  shows "(int (length (records st (access_key self))) \<le> max_size self \<longrightarrow>
            int (length (records (set_many J self ops st) (access_key self))) \<le> max_size self
            \<and> (\<forall>n. size_lru self now (set_many J self ops st) = Inr n \<longrightarrow> n \<le> max_size self))
       \<and> (st (access_key self) = None \<longrightarrow>
          int (length ops) = max_size self \<longrightarrow>
          distinct (map (\<lambda>op. fst (snd op)) (ops @ [op])) \<longrightarrow>
          paced (of_int (expiration self)) None (map fst (ops @ [op])) \<longrightarrow>
          sets_ok J self (ops @ [op]) st \<longrightarrow>
            int (length (records (set_many J self ops st) (access_key self))) = max_size self
            \<and> fst (ensure_room (fst op) self (set_many J self ops st)) = Inr False
            \<and> int (length (records (snd (ensure_room (fst op) self (set_many J self ops st)))
                   (access_key self))) < max_size self
            \<and> int (length (records (set_many J self (ops @ [op]) st) (access_key self)))
                \<le> max_size self)"
proof (intro conjI impI)
  assume inv: "int (length (records st (access_key self))) \<le> max_size self"
  show b: "int (length (records (set_many J self ops st) (access_key self))) \<le> max_size self"
    using mk pos inv by (rule set_many_bound)
  show "\<forall>n. size_lru self now (set_many J self ops st) = Inr n \<longrightarrow> n \<le> max_size self"
  proof (intro allI impI)
    fix n assume "size_lru self now (set_many J self ops st) = Inr n"
    then have "n \<le> int (length (records (set_many J self ops st) (access_key self)))"
      by (rule size_lru_records)
    with b show "n \<le> max_size self" by linarith
  qed
next
  let ?a = "access_key self"
  let ?E = "of_int (expiration self) :: rat"
  let ?key = "\<lambda>op. fst (snd op)"
  let ?sn = "set_many J self ops st"
  let ?t = "fst op"
  assume fresh: "st ?a = None"
    and len: "int (length ops) = max_size self"
    and dist: "distinct (map ?key (ops @ [op]))"
    and pace: "paced ?E None (map fst (ops @ [op]))"
    and ok: "sets_ok J self (ops @ [op]) st"
  have ne: "ops \<noteq> []" using len pos by auto
  have tr0: "tracking self st [] None" using fresh by (simp add: tracking_def)
  have pace1: "paced ?E None (map fst ops)"
    and pace2: "paced ?E (Some (last (map fst ops))) [?t]"
    using pace ne by (simp_all add: paced_append)
  have ok1: "sets_ok J self ops st" and ok2: "sets_ok J self [op] ?sn"
    using ok by (simp_all only: sets_ok_append)
  have d1: "distinct ([] @ map ?key ops)" using dist by simp
  have r1: "int (length ([] :: bytes list) + length ops) \<le> max_size self" using len by simp
  have "tracking self ?sn ([] @ map ?key ops) (if ops = [] then None else Some (fst (last ops)))"
    using mk tr0 pace1 d1 r1 ok1 by (rule grow_many)
  then have tr: "tracking self ?sn (map ?key ops) (Some (fst (last ops)))"
    using ne by simp
  have lastt: "last (map fst ops) = fst (last ops)" using ne by (simp add: last_map)
  have soon: "case Some (fst (last ops)) of None \<Rightarrow> True | Some t0 \<Rightarrow> ?t \<le> t0 + ?E"
    using pace2 by (simp add: lastt)
  have sz: "size_lru self ?t ?sn = Inr (int (length (map ?key ops)))"
    using tr soon by (rule tracking_size)
  have over: "\<not> int (length (map ?key ops)) < max_size self" using len by simp
  have full: "length (records ?sn ?a) = length (map ?key ops)"
    using tr by (rule tracking_records)
  show c1: "int (length (records ?sn ?a)) = max_size self" using full len by simp
  obtain raw where enc: "dumps J (snd (snd op)) = Some raw" using ok2 by auto
  have "fst (setitem J ?t self (Str (?key op)) (snd (snd op)) ?sn) = Inr ()"
    using ok2 by simp
  then have set: "setitem J ?t self (Str (?key op)) (snd (snd op)) ?sn
      = (Inr (), snd (setitem J ?t self (Str (?key op)) (snd (snd op)) ?sn))"
    by (metis prod.collapse)
  obtain room s1 where er: "ensure_room ?t self ?sn = (Inr room, s1)"
    using setitem_ok_unfold [OF enc set] by blast
  then have "fst (ensure_room ?t self ?sn) = Inr room" by simp
  with sz over have "room = False" by (rule ensure_room_over)
  then show "fst (ensure_room ?t self ?sn) = Inr False" using er by simp
  have "length (records (snd (ensure_room ?t self ?sn)) ?a) < length (records ?sn ?a)"
    using mk pos sz over by (rule ensure_room_shrinks)
  then show "int (length (records (snd (ensure_room ?t self ?sn)) ?a)) < max_size self"
    using c1 by linarith
  have "int (length (records st ?a)) \<le> max_size self"
    using fresh pos by (simp add: records_def)
  with mk pos show "int (length (records (set_many J self (ops @ [op]) st) ?a)) \<le> max_size self"
    by (rule set_many_bound)
qed

theorem tracker_stays_bounded_witness:
  "fst (init [] (Some (Str ''k'')) 1 1 False 0 Map.empty) = Inr small_cache
   \<and> 0 < max_size small_cache
   \<and> int (length (records Map.empty (access_key small_cache))) \<le> max_size small_cache
   \<and> (Map.empty :: redis) (access_key small_cache) = None
   \<and> int (length [(0 :: rat, ''a'', JTrue)]) = max_size small_cache
   \<and> distinct (map (\<lambda>op. fst (snd op)) ([(0 :: rat, ''a'', JTrue)] @ [(1 / 2, ''b'', JFalse)]))
   \<and> paced (of_int (expiration small_cache)) None
        (map fst ([(0 :: rat, ''a'', JTrue)] @ [(1 / 2, ''b'', JFalse)]))
   \<and> sets_ok json_literals small_cache ([(0, ''a'', JTrue)] @ [(1 / 2, ''b'', JFalse)]) Map.empty
   \<and> set_many json_literals small_cache [(0, ''a'', JTrue)] Map.empty = after_a
   \<and> size_lru small_cache (1 / 2) after_a = Inr 1
   \<and> (1 :: int) \<le> max_size small_cache
   \<and> int (length (records after_a (access_key small_cache))) = max_size small_cache
   \<and> fst (ensure_room (1 / 2) small_cache after_a) = Inr False
   \<and> int (length (records (snd (ensure_room (1 / 2) small_cache after_a))
          (access_key small_cache))) < max_size small_cache
   \<and> int (length (records
          (set_many json_literals small_cache ([(0, ''a'', JTrue)] @ [(1 / 2, ''b'', JFalse)]) Map.empty)
          (access_key small_cache))) \<le> max_size small_cache"
proof -
  let ?ops = "[(0 :: rat, ''a'', JTrue)]"
  let ?op = "(1 / 2 :: rat, ''b'', JFalse)"
  have h1: "fst (init [] (Some (Str ''k'')) 1 1 False 0 Map.empty) = Inr small_cache"
    by (rule init_small)
  have h2: "0 < max_size small_cache" by (simp add: small_fields)
  have h3: "int (length (records Map.empty (access_key small_cache))) \<le> max_size small_cache"
    by (simp add: records_def small_fields)
  have h4: "(Map.empty :: redis) (access_key small_cache) = None" by simp
  have h5: "int (length ?ops) = max_size small_cache" by (simp add: small_fields)
  have h6: "distinct (map (\<lambda>op. fst (snd op)) (?ops @ [?op]))" by simp
  have h7: "paced (of_int (expiration small_cache)) None (map fst (?ops @ [?op]))"
    by (simp add: small_fields)
  have sm: "set_many json_literals small_cache ?ops Map.empty = after_a"
    by (simp add: setitem_small_a)
  have enc: "dumps json_literals JTrue \<noteq> None" "dumps json_literals JFalse \<noteq> None"
    by (simp_all add: json_literals_def)
  have h8: "sets_ok json_literals small_cache (?ops @ [?op]) Map.empty"
    by (simp add: setitem_small_a setitem_small_soon enc)
  note T = tracker_stays_bounded [OF h1 h2, where st = Map.empty and J = json_literals
      and ops = ?ops and op = ?op and now = "1 / 2"]
  have p1: "int (length (records (set_many json_literals small_cache ?ops Map.empty)
        (access_key small_cache))) \<le> max_size small_cache
      \<and> (\<forall>n. size_lru small_cache (1 / 2) (set_many json_literals small_cache ?ops Map.empty) = Inr n
            \<longrightarrow> n \<le> max_size small_cache)"
    using T h3 by blast
  then have c0: "(1 :: int) \<le> max_size small_cache"
    using size_small_soon unfolding sm by blast
  have p2: "int (length (records (set_many json_literals small_cache ?ops Map.empty)
        (access_key small_cache))) = max_size small_cache
      \<and> fst (ensure_room (fst ?op) small_cache (set_many json_literals small_cache ?ops Map.empty))
          = Inr False
      \<and> int (length (records (snd (ensure_room (fst ?op) small_cache
            (set_many json_literals small_cache ?ops Map.empty))) (access_key small_cache)))
          < max_size small_cache
      \<and> int (length (records (set_many json_literals small_cache (?ops @ [?op]) Map.empty)
            (access_key small_cache))) \<le> max_size small_cache"
    using T h4 h5 h6 h7 h8 by blast
  have c1: "int (length (records after_a (access_key small_cache))) = max_size small_cache"
    and c2: "fst (ensure_room (1 / 2) small_cache after_a) = Inr False"
    and c3: "int (length (records (snd (ensure_room (1 / 2) small_cache after_a))
          (access_key small_cache))) < max_size small_cache"
    and c4: "int (length (records
          (set_many json_literals small_cache (?ops @ [?op]) Map.empty)
          (access_key small_cache))) \<le> max_size small_cache"
    using p2 unfolding sm fst_conv by blast+
  show ?thesis
    using h1 h2 h3 h4 h5 h6 h7 h8 sm size_small_soon c0 c1 c2 c3 c4 by (intro conjI)
qed

end
